theory Spec2Isabelle
  imports Complex_Main
begin

section \<open>Exceptions of the simulation engine\<close>

text \<open>
  The Python source raises exceptions; the model returns them as the left summand of a
  result. \<open>NanOrInf\<close> is not an exception: it marks the places of the set-up code where
  numpy divides by zero, warns, and carries on with \<open>nan\<close> or \<open>inf\<close> entries. The model
  has no such values and stops there.
\<close>

datatype error =
    ValueError
  | AssertionError
  | IndexError
  | NameError
  | OverflowError
  | ZeroDivisionError
  | Warning string
  | NanOrInf

text \<open>Collecting the results of a Python loop body: the first exception ends the loop.\<close>

fun collect :: "(error + 'a) list \<Rightarrow> error + 'a list" where
  "collect [] = Inr []"
| "collect (x # xs) =
     (case x of
        Inl e \<Rightarrow> Inl e
      | Inr v \<Rightarrow> (case collect xs of Inl e \<Rightarrow> Inl e | Inr vs \<Rightarrow> Inr (v # vs)))"

section \<open>Genotype space (population.py)\<close>

text \<open>
  \<open>bin(num)[2:]\<close> for a non-negative Python int: the binary digits, most significant
  first, \<open>'0'\<close> for zero.
\<close>

definition digit :: "nat \<Rightarrow> char" where
  "digit b = (if b = 0 then CHR ''0'' else CHR ''1'')"

fun bin_digits :: "nat \<Rightarrow> string" where
  "bin_digits n = (if n < 2 then [digit n] else bin_digits (n div 2) @ [digit (n mod 2)])"

declare bin_digits.simps [simp del]

text \<open>\<open>str.zfill(width)\<close> on a string without sign: pad with \<open>'0'\<close> on the left.\<close>

definition zfill :: "nat \<Rightarrow> string \<Rightarrow> string" where
  "zfill width s = replicate (width - length s) CHR ''0'' @ s"

text \<open>
  \<open>int(math.log(n, 2))\<close>: the floating-point logarithm is taken as exact, so the result is
  the integer part of the base-2 logarithm. \<open>math.log(0, 2)\<close> raises ValueError.
\<close>

fun ilog2 :: "nat \<Rightarrow> nat" where
  "ilog2 n = (if n < 2 then 0 else Suc (ilog2 (n div 2)))"

declare ilog2.simps [simp del]

text \<open>
  \<open>int_to_binary(self, num)\<close>: the pad width comes from the population's \<open>n_genotype\<close>,
  not from an argument.
\<close>

definition int_to_binary :: "nat \<Rightarrow> nat \<Rightarrow> error + string" where
  "int_to_binary n_genotype num =
     (if n_genotype = 0 then Inl ValueError
      else Inr (zfill (ilog2 n_genotype) (bin_digits num)))"

text \<open>\<open>hammingDistance(self, s1, s2)\<close>, with its assertion.\<close>

definition hammingDistance :: "string \<Rightarrow> string \<Rightarrow> error + nat" where
  "hammingDistance s1 s2 =
     (if length s1 \<noteq> length s2 then Inl AssertionError
      else Inr (length (filter (\<lambda>(ch1, ch2). ch1 \<noteq> ch2) (zip s1 s2))))"

text \<open>\<open>gen_neighbors(self, genotype)\<close>: \<open>genotype ^ (1 << m)\<close> for each allele \<open>m\<close>.\<close>

definition gen_neighbors :: "nat \<Rightarrow> nat \<Rightarrow> nat list" where
  "gen_neighbors n_allele genotype = map (\<lambda>m. xor genotype (push_bit m 1)) [0..<n_allele]"

section \<open>Mutation model (population.py, random\_mutations)\<close>

text \<open>One entry of the double loop: \<open>hammingDistance(int_to_binary(mm), int_to_binary(nn))\<close>.\<close>

definition trans_entry :: "nat \<Rightarrow> nat \<Rightarrow> nat \<Rightarrow> error + nat" where
  "trans_entry n_genotype mm nn =
     (case int_to_binary n_genotype mm of
        Inl e \<Rightarrow> Inl e
      | Inr s1 \<Rightarrow>
         (case int_to_binary n_genotype nn of
            Inl e \<Rightarrow> Inl e
          | Inr s2 \<Rightarrow> hammingDistance s1 s2))"

definition trans_raw :: "nat \<Rightarrow> nat \<Rightarrow> error + nat list list" where
  "trans_raw n_genotype N =
     collect (map (\<lambda>mm. collect (map (\<lambda>nn. trans_entry n_genotype mm nn) [0..<N])) [0..<N])"

text \<open>\<open>trans_mat[trans_mat>1] = 0\<close>.\<close>

definition threshold :: "nat \<Rightarrow> real" where
  "threshold h = (if h > 1 then 0 else real h)"

text \<open>
  \<open>trans_mat/trans_mat.sum(axis=1)\<close>: the vector of row sums has shape \<open>(N,)\<close>, and numpy
  broadcasts it along the last axis, so entry \<open>[i, j]\<close> is divided by the sum of row \<open>j\<close>.
  A zero row sum makes numpy produce \<open>nan\<close> or \<open>inf\<close>.
\<close>

definition normalize :: "real list list \<Rightarrow> error + real list list" where
  "normalize T =
     (let s = map sum_list T
      in if 0 \<in> set s then Inl NanOrInf
         else Inr (map (\<lambda>row. map (\<lambda>(x, d). x / d) (zip row s)) T))"

definition random_mutations :: "nat \<Rightarrow> nat \<Rightarrow> error + real list list" where
  "random_mutations n_genotype N =
     (case trans_raw n_genotype N of
        Inl e \<Rightarrow> Inl e
      | Inr H \<Rightarrow> normalize (map (map threshold) H))"

section \<open>Python numbers and double-precision arithmetic\<close>

text \<open>
  A Python number is an \<open>int\<close>, of any size, or a \<open>float\<close>, an IEEE binary64 value. A
  float is written as the real number it stands for.
\<close>

datatype pynum = PyInt int | PyFloat real

definition num_val :: "pynum \<Rightarrow> real" where
  "num_val x = (case x of PyInt i \<Rightarrow> of_int i | PyFloat f \<Rightarrow> f)"

text \<open>\<open>2 ** e\<close> for an integer exponent.\<close>

definition pow2 :: "int \<Rightarrow> real" where
  "pow2 e = (if 0 \<le> e then 2 ^ nat e else 1 / 2 ^ nat (- e))"

text \<open>The integer part of the base-2 logarithm of an integer \<open>n \<ge> 1\<close>.\<close>

function floor_log2 :: "int \<Rightarrow> int" where
  "floor_log2 n = (if n < 2 then 0 else floor_log2 (n div 2) + 1)"
  by pat_completeness auto
termination
  by (relation "measure nat") auto

declare floor_log2.simps [simp del]

text \<open>The binary exponent of \<open>a > 0\<close>: the \<open>e\<close> with \<open>2 ** e \<le> a < 2 ** (e + 1)\<close>.\<close>

definition exponent :: "real \<Rightarrow> int" where
  "exponent a = (if 1 \<le> a then floor_log2 \<lfloor>a\<rfloor>
                 else - (floor_log2 (\<lceil>1 / a\<rceil> - 1) + 1))"

text \<open>Rounding to the nearest integer, ties to the even one.\<close>

definition round_even :: "real \<Rightarrow> int" where
  "round_even q =
     (let f = \<lfloor>q\<rfloor>
      in if q - of_int f < 1 / 2 then f
         else if 1 / 2 < q - of_int f then f + 1
         else if even f then f else f + 1)"

text \<open>
  The result of a binary64 operation is the exact result rounded to 53 significant bits,
  to nearest, ties to even. The exponent is not bounded here: overflow to \<open>inf\<close> and
  gradual underflow, beyond \<open>2 ** 1024\<close> and below \<open>2 ** -1022\<close>, are outside the model.
\<close>

definition round_double :: "real \<Rightarrow> real" where
  "round_double x =
     (if x = 0 then 0
      else let u = pow2 (exponent \<bar>x\<bar> - 52)
           in sgn x * (of_int (round_even (\<bar>x\<bar> / u)) * u))"

text \<open>The conversion of an integer to a float, and the float product and quotient.\<close>

definition to_double :: "int \<Rightarrow> real" where
  "to_double i = round_double (of_int i)"

definition float_mul :: "real \<Rightarrow> real \<Rightarrow> real" where
  "float_mul x y = round_double (x * y)"

definition float_div :: "real \<Rightarrow> real \<Rightarrow> real" where
  "float_div x y = round_double (x / y)"

section \<open>Population parameters (population.py, PopParams and Population)\<close>

text \<open>
  \<open>pop_params\<close> holds the attributes of \<open>PopParams\<close> that the engine reads.
  \<open>n_allele\<close>, \<open>n_genotype\<close> and \<open>init_counts\<close> default to \<open>None\<close> there; they are the
  \<open>given_\<close> fields. A \<open>population\<close> is the object after \<open>initialize_population\<close>, where the
  three are set. \<open>timestep_scale\<close> is the \<open>int\<close> 1 by default and a float when the caller
  passes one; \<open>passage_time\<close>, \<open>dilution\<close> and \<open>max_cells\<close> are ints.
\<close>

record pop_params =
  death_rate :: real
  mut_rate :: real
  death_model :: "string option"
  constant_pop :: bool
  use_carrying_cap :: bool
  n_timestep :: nat
  timestep_scale :: pynum
  passage :: bool
  passage_time :: nat
  dilution :: nat
  max_cells :: int
  stop_condition :: bool
  debug :: bool
  given_n_allele :: "nat option"
  given_n_genotype :: "nat option"
  given_init_counts :: "real list option"

record population = pop_params +
  n_allele :: nat
  n_genotype :: nat
  init_counts :: "real list"

text \<open>
  \<open>initialize_population(self)\<close>. \<open>lib_genotypes\<close> is the number of distinct genotypes of
  the pharmacodynamics library, read from a file. \<open>int(np.log2(n))\<close> is \<open>ilog2 n\<close> for
  \<open>n > 0\<close>; for \<open>n = 0\<close> it is \<open>int(-inf)\<close>, an OverflowError. \<open>init_counts\<close> is a numpy
  array, as its default is; with a zero sum the constant-population scaling divides by
  zero.
\<close>

text \<open>The lines \<open>if self.init_counts is None: ...\<close>: \<open>10**6\<close> cells of genotype 0 by default.\<close>

definition initial_counts :: "pop_params \<Rightarrow> nat \<Rightarrow> real list" where
  "initial_counts self n =
     (case given_init_counts self of None \<Rightarrow> (replicate n 0)[0 := 10 ^ 6] | Some c \<Rightarrow> c)"

definition initialize_population :: "pop_params \<Rightarrow> nat \<Rightarrow> error + population" where
  "initialize_population self lib_genotypes =
     (let n_genotype = (case given_n_genotype self of None \<Rightarrow> lib_genotypes | Some n \<Rightarrow> n)
      in if n_genotype = 0 then Inl OverflowError
         else
           let n_allele = (case given_n_allele self of None \<Rightarrow> ilog2 n_genotype | Some a \<Rightarrow> a)
           in if n_allele \<noteq> ilog2 n_genotype
              then Inl (Warning ''Genotype/allele number mismatch'')
              else
                let init_counts = initial_counts self n_genotype
                in if constant_pop self
                   then
                     if sum_list init_counts = 0 then Inl NanOrInf
                     else Inr (pop_params.extend (self\<lparr>use_carrying_cap := False\<rparr>)
                            (population.fields n_allele n_genotype
                               (map (\<lambda>x. of_int \<lfloor>x * of_int (max_cells self) / sum_list init_counts\<rfloor>)
                                  init_counts)))
                   else Inr (pop_params.extend self
                          (population.fields n_allele n_genotype init_counts)))"

section \<open>Passaging (population.py, passage\_cells)\<close>

text \<open>
  \<open>mm*self.timestep_scale\<close>: the product of the timestep, an \<open>int\<close>, and a Python number.
  With a float the timestep is converted and the product is rounded.
\<close>

definition py_mul :: "nat \<Rightarrow> pynum \<Rightarrow> pynum" where
  "py_mul mm x =
     (case x of
        PyInt i \<Rightarrow> PyInt (int mm * i)
      | PyFloat f \<Rightarrow> PyFloat (float_mul (to_double (int mm)) f))"

text \<open>
  \<open>np.mod(x, y)\<close> on floats, for \<open>y \<noteq> 0\<close>: the remainder with the sign of \<open>y\<close>. numpy
  takes it from the C function \<open>fmod\<close>, which is exact, so the remainder is zero exactly
  when \<open>x\<close> is a multiple of \<open>y\<close>.
\<close>

definition np_mod :: "real \<Rightarrow> real \<Rightarrow> real" where
  "np_mod x y = x - y * of_int \<lfloor>x / y\<rfloor>"

text \<open>
  \<open>np.mod(x, y) == 0\<close> for an \<open>int\<close> \<open>y\<close>. On two ints numpy takes the integer remainder,
  and answers 0, with a warning, when \<open>y\<close> is 0. On a float \<open>x\<close> it converts \<open>y\<close>, and the
  remainder by 0 is \<open>nan\<close>, which equals nothing.
\<close>

definition np_mod_is_zero :: "pynum \<Rightarrow> nat \<Rightarrow> bool" where
  "np_mod_is_zero x y =
     (case x of
        PyInt i \<Rightarrow> (if y = 0 then True else i mod int y = 0)
      | PyFloat f \<Rightarrow> (if y = 0 then False else np_mod f (to_double (int y)) = 0))"

text \<open>\<open>int(c)\<close> on a float: truncation towards zero.\<close>

definition py_int :: "real \<Rightarrow> int" where
  "py_int x = (if 0 \<le> x then \<lfloor>x\<rfloor> else \<lceil>x\<rceil>)"

text \<open>
  \<open>passage_cells(self, mm, counts)\<close>. \<open>np.divide\<close> converts the counts and the dilution to
  floats and rounds each quotient. The line \<open>counts[counts<1] == 0\<close> is a comparison whose
  value is dropped. A zero \<open>dilution\<close> gives \<open>inf\<close> or \<open>nan\<close> entries, on which \<open>int\<close> raises.
\<close>

definition passage_cells :: "population \<Rightarrow> nat \<Rightarrow> int list \<Rightarrow> error + int list" where
  "passage_cells self mm counts =
     (if np_mod_is_zero (py_mul mm (timestep_scale self)) (passage_time self)
           \<and> \<not> mm = 0 \<and> passage self
      then
        if dilution self = 0
        then (case counts of
                [] \<Rightarrow> Inr []
              | c # _ \<Rightarrow> if c = 0 then Inl ValueError else Inl OverflowError)
        else Inr (map (\<lambda>c. py_int (float_div (to_double c) (to_double (int (dilution self)))))
                    counts)
      else Inr counts)"

section \<open>The random source\<close>

text \<open>
  numpy's global generator is modelled as a sequence of raw draws and a position in it.
  Every sequence is a possible run of the generator: a Poisson variate with a positive
  mean takes every natural number with positive probability, and \<open>choice\<close> takes every
  index of positive weight.
\<close>

record rng =
  draws :: "nat \<Rightarrow> nat"
  pos :: nat

definition next_raw :: "rng \<Rightarrow> nat \<times> rng" where
  "next_raw g = (draws g (pos g), g\<lparr>pos := Suc (pos g)\<rparr>)"

text \<open>
  \<open>np.random.poisson(lam)\<close> for one mean: ValueError for a negative mean, 0 for mean 0,
  otherwise the next raw draw.
\<close>

definition poisson :: "real \<Rightarrow> rng \<Rightarrow> error + int \<times> rng" where
  "poisson lam g =
     (if lam < 0 then Inl ValueError
      else let (r, g') = next_raw g in Inr (if lam = 0 then 0 else int r, g'))"

text \<open>\<open>np.random.poisson\<close> on an array of means, one variate for each.\<close>

fun poisson_vec :: "real list \<Rightarrow> rng \<Rightarrow> error + int list \<times> rng" where
  "poisson_vec [] g = Inr ([], g)"
| "poisson_vec (lam # lams) g =
     (case poisson lam g of
        Inl e \<Rightarrow> Inl e
      | Inr (x, g') \<Rightarrow>
         (case poisson_vec lams g' of
            Inl e \<Rightarrow> Inl e
          | Inr (xs, g'') \<Rightarrow> Inr (x # xs, g'')))"

text \<open>
  \<open>np.random.choice(n, size=k, p=p)\<close>: numpy first checks that \<open>p\<close> has \<open>n\<close> entries, none
  negative, summing to 1 (the floating tolerance is taken as exact); then each of the \<open>k\<close>
  samples is an index of positive weight, picked by the next raw draw.
\<close>

definition choice_one :: "real list \<Rightarrow> rng \<Rightarrow> nat \<times> rng" where
  "choice_one p g =
     (let support = filter (\<lambda>j. 0 < p ! j) [0..<length p];
          (r, g') = next_raw g
      in (support ! (r mod length support), g'))"

fun choice_many :: "nat \<Rightarrow> real list \<Rightarrow> rng \<Rightarrow> nat list \<times> rng" where
  "choice_many 0 p g = ([], g)"
| "choice_many (Suc k) p g =
     (let (j, g') = choice_one p g; (js, g'') = choice_many k p g' in (j # js, g''))"

definition choice :: "nat \<Rightarrow> nat \<Rightarrow> real list \<Rightarrow> rng \<Rightarrow> error + nat list \<times> rng" where
  "choice n k p g =
     (if length p \<noteq> n \<or> (\<exists>x \<in> set p. x < 0) \<or> sum_list p \<noteq> 1 then Inl ValueError
      else Inr (choice_many k p g))"

text \<open>What a call hands back to its caller: the result without the generator's state.\<close>

definition returned :: "error + 'a \<times> rng \<Rightarrow> error + 'a" where
  "returned r = (case r of Inl e \<Rightarrow> Inl e | Inr (v, g) \<Rightarrow> Inr v)"

text \<open>\<open>np.bincount(xs, minlength=n)\<close> for values below \<open>n\<close>.\<close>

definition bincount :: "nat list \<Rightarrow> nat \<Rightarrow> int list" where
  "bincount xs n = map (\<lambda>j. int (count_list xs j)) [0..<n]"

section \<open>The stochastic update step (population.py, abm)\<close>

text \<open>
  The fitness evaluator \<open>fitness.gen_abm_fl_md(self, mm, counts)\<close> lives in a module that
  is not part of the sources at hand; it is the parameter \<open>gen_abm_fl_md\<close>, a function of
  the timestep and the count vector.

  The model covers the calls that \<open>run_abm\<close> makes: the count vector and the fitness
  vector have \<open>n_genotype\<close> entries and \<open>P\<close> is an \<open>n_genotype\<close> by \<open>n_genotype\<close> array. For
  other shapes numpy raises or broadcasts; the model answers ValueError for all of them.
\<close>

definition well_shaped :: "nat \<Rightarrow> real list list \<Rightarrow> real list \<Rightarrow> int list \<Rightarrow> bool" where
  "well_shaped n P fit_land counts \<longleftrightarrow>
     length counts = n \<and> length fit_land = n \<and> length P = n \<and> (\<forall>row \<in> set P. length row = n)"

text \<open>
  The branch \<open>death_model == 'pharmacodynamic'\<close>, from the scaled fitness and the
  scaled death rate \<open>d_rate\<close> to the pair \<open>(counts_t, daughter_counts)\<close>.
\<close>

definition pharmacodynamic_deaths ::
  "real list \<Rightarrow> real \<Rightarrow> int list \<Rightarrow> rng \<Rightarrow> error + (int list \<times> int list) \<times> rng" where
  "pharmacodynamic_deaths fit_land d_rate counts_t g =
     (let negative_fitness = map (\<lambda>f. f < 0) fit_land;
          fit_abs = map abs fit_land
      in case poisson_vec (map2 (\<lambda>c f. of_int c * f) counts_t fit_abs) g of
           Inl e \<Rightarrow> Inl e
         | Inr (drawn, g1) \<Rightarrow>
            let delta_cells = map2 (\<lambda>neg d. if neg then - 1 * d else d) negative_fitness drawn
            in case poisson_vec (map (\<lambda>c. of_int c * d_rate) counts_t) g1 of
                 Inl e \<Rightarrow> Inl e
               | Inr (turnover, g2) \<Rightarrow>
                  let dead_cells_turnover = map (\<lambda>d. - 1 * d) turnover;
                      dead_cells = map2 (+) (map (\<lambda>d. if d > 0 then 0 else d) delta_cells)
                                     dead_cells_turnover;
                      counts_t' = map2 (+) counts_t dead_cells;
                      daughter_counts = map (\<lambda>d. if d < 0 then 0 else d) delta_cells
                  in Inr ((counts_t', daughter_counts), g2))"

text \<open>The other branch: background turnover, then daughters of the survivors.\<close>

definition default_deaths ::
  "real list \<Rightarrow> real \<Rightarrow> int list \<Rightarrow> rng \<Rightarrow> error + (int list \<times> int list) \<times> rng" where
  "default_deaths fit_land d_rate counts g =
     (case poisson_vec (map (\<lambda>c. of_int c * d_rate) counts) g of
        Inl e \<Rightarrow> Inl e
      | Inr (turnover, g1) \<Rightarrow>
         let counts_t = map2 (-) counts turnover
         in case poisson_vec (map2 (\<lambda>c f. of_int c * f) counts_t fit_land) g1 of
              Inl e \<Rightarrow> Inl e
            | Inr (daughter_counts, g2) \<Rightarrow> Inr ((counts_t, daughter_counts), g2))"

text \<open>
  One pass of the loop \<open>for genotype in np.arange(n_genotype)\<close>: the state is
  \<open>(daughter_counts, counts_t)\<close> and the random source; \<open>m_rate\<close> is the scaled
  mutation rate. The samples are cast to \<open>np.uint8\<close> before they are counted.
\<close>

definition mutate_one ::
  "population \<Rightarrow> nat \<Rightarrow> real list list \<Rightarrow> real \<Rightarrow> nat \<Rightarrow> (int list \<times> int list) \<times> rng
     \<Rightarrow> error + (int list \<times> int list) \<times> rng" where
  "mutate_one self n_gen P m_rate genotype st =
     (case st of ((daughter_counts, counts_t), g) \<Rightarrow>
        (case poisson (of_int (daughter_counts ! genotype) * m_rate * real (n_allele self)) g of
           Inl e \<Rightarrow> Inl e
         | Inr (n_mut, g1) \<Rightarrow>
            let daughter_counts' = daughter_counts[genotype := daughter_counts ! genotype - n_mut]
            in case choice n_gen (nat n_mut) (map (\<lambda>row. row ! genotype) P) g1 of
                 Inl e \<Rightarrow> Inl e
               | Inr (mutations, g2) \<Rightarrow>
                  Inr ((daughter_counts',
                        map2 (+) counts_t (bincount (map (\<lambda>m. m mod 256) mutations) n_gen)),
                       g2)))"

fun mutate_loop ::
  "population \<Rightarrow> nat \<Rightarrow> real list list \<Rightarrow> real \<Rightarrow> nat list \<Rightarrow> (int list \<times> int list) \<times> rng
     \<Rightarrow> error + (int list \<times> int list) \<times> rng" where
  "mutate_loop self n_gen P m_rate [] st = Inr st"
| "mutate_loop self n_gen P m_rate (genotype # rest) st =
     (case mutate_one self n_gen P m_rate genotype st of
        Inl e \<Rightarrow> Inl e
      | Inr st' \<Rightarrow> mutate_loop self n_gen P m_rate rest st')"

text \<open>
  \<open>ndarray.astype('int')\<close> on a float without fraction. A value outside the 64-bit range,
  and \<open>inf\<close> and \<open>nan\<close>, become \<open>-2 ** 63\<close> (the result of the conversion instruction of
  x86-64).
\<close>

definition astype_int :: "real \<Rightarrow> int" where
  "astype_int x = (if - (2 ^ 63) \<le> x \<and> x < 2 ^ 63 then py_int x else - (2 ^ 63))"

text \<open>
  \<open>Normalize to constant population\<close>: \<open>scale = max_cells/np.sum(counts_t)\<close>, then
  \<open>np.ceil(counts_t*scale).astype('int')\<close>. The quotient and every product are rounded.
  With a zero sum numpy warns, \<open>scale\<close> is \<open>inf\<close> or \<open>nan\<close>, and so is every product. The
  counts are integers of any size here: the wrap-around of a 64-bit sum is outside the
  model.
\<close>

definition normalize_pop :: "population \<Rightarrow> int list \<Rightarrow> error + int list" where
  "normalize_pop self counts_t =
     (if sum_list counts_t = 0 then Inr (map (\<lambda>c. - (2 ^ 63)) counts_t)
      else let scale = float_div (to_double (max_cells self)) (to_double (sum_list counts_t))
           in Inr (map (\<lambda>c. astype_int (of_int \<lceil>float_mul (to_double c) scale\<rceil>)) counts_t))"

text \<open>
  \<open>abm(self, mm, n_genotype, P, counts)\<close>; the argument \<open>n_genotype\<close> is \<open>n_gen\<close> here.
  With \<open>debug\<close> set, every tenth timestep prints
  \<open>dead_cells\<close>, a name that only the pharmacodynamic branch binds.
\<close>

definition abm ::
  "population \<Rightarrow> (nat \<Rightarrow> int list \<Rightarrow> real list) \<Rightarrow> nat \<Rightarrow> nat \<Rightarrow> real list list \<Rightarrow> int list
     \<Rightarrow> rng \<Rightarrow> error + int list \<times> rng" where
  "abm self gen_abm_fl_md mm n_gen P counts g =
     (if \<not> well_shaped n_gen P (gen_abm_fl_md mm counts) counts then Inl ValueError
      else
        let fit_land = map (\<lambda>f. f * num_val (timestep_scale self)) (gen_abm_fl_md mm counts);
            death_rate = death_rate self * num_val (timestep_scale self);
            mut_rate = mut_rate self * num_val (timestep_scale self)
        in case passage_cells self mm counts of
             Inl e \<Rightarrow> Inl e
           | Inr counts' \<Rightarrow>
              (case (if death_model self = Some ''pharmacodynamic''
                     then pharmacodynamic_deaths fit_land death_rate counts' g
                     else default_deaths fit_land death_rate counts' g) of
                 Inl e \<Rightarrow> Inl e
               | Inr ((counts_t, daughter_counts), g1) \<Rightarrow>
                  if debug self \<and> mm mod 10 = 0 \<and> death_model self \<noteq> Some ''pharmacodynamic''
                  then Inl NameError
                  else
                    let counts_t = map (\<lambda>c. if c < 0 then 0 else c) counts_t
                    in case mutate_loop self n_gen P mut_rate [0..<n_gen]
                              ((daughter_counts, counts_t), g1) of
                         Inl e \<Rightarrow> Inl e
                       | Inr ((daughter_counts, counts_t), g2) \<Rightarrow>
                          let counts_t = map2 (+) counts_t daughter_counts
                          in if constant_pop self
                             then (case normalize_pop self counts_t of
                                     Inl e \<Rightarrow> Inl e
                                   | Inr counts_t \<Rightarrow> Inr (counts_t, g2))
                             else Inr (counts_t, g2)))"

section \<open>The simulation driver (population.py, check\_stop\_cond and run\_abm)\<close>

text \<open>\<open>ndarray.argmax()\<close>: the first index of a largest entry; ValueError on an empty array.\<close>

definition argmax :: "int list \<Rightarrow> nat" where
  "argmax xs = length (takeWhile (\<lambda>x. x \<noteq> Max (set xs)) xs)"

text \<open>
  \<open>check_stop_cond(self, counts, mm)\<close>. The fittest genotype at the maximum dose,
  \<open>self.gen_fit_land(self.max_dose).argmax()\<close>, comes from the fitness module and is the
  parameter \<open>fittest_genotype\<close>. The assignment after the \<open>raise\<close> is never reached.
\<close>

definition check_stop_cond :: "population \<Rightarrow> nat \<Rightarrow> int list \<Rightarrow> nat \<Rightarrow> error + bool" where
  "check_stop_cond self fittest_genotype counts mm =
     (if counts = [] then Inl ValueError
      else
        let most_frequent_genotype = argmax counts;
            stop_cond = (fittest_genotype = most_frequent_genotype)
        in if mm \<ge> n_timestep self
           then Inl (Warning
             ''Stop condition not reached. Increase n_timestep or adjust model parameters.'')
           else Inr stop_cond)"

text \<open>
  \<open>counts[0,:] = self.init_counts\<close> into an integer array: the vector must have the row's
  length or length one, and each entry is truncated.
\<close>

definition first_row :: "population \<Rightarrow> error + int list" where
  "first_row self =
     (if length (init_counts self) = n_genotype self then Inr (map py_int (init_counts self))
      else if length (init_counts self) = 1
      then Inr (replicate (n_genotype self) (py_int (hd (init_counts self))))
      else Inl ValueError)"

text \<open>
  The loop of the stop-condition mode. \<open>counts\<close> starts as a two-dimensional array, so
  the branch for a one-dimensional \<open>counts\<close> is never taken and \<open>mm\<close> grows with every row.
\<close>

function stop_loop ::
  "population \<Rightarrow> (nat \<Rightarrow> int list \<Rightarrow> real list) \<Rightarrow> nat \<Rightarrow> real list list \<Rightarrow> int list list \<Rightarrow> nat
     \<Rightarrow> rng \<Rightarrow> error + (int list list \<times> nat) \<times> rng" where
  "stop_loop self fl fittest P counts mm g =
     (if mm \<ge> length counts then Inl IndexError
      else
        case abm self fl mm (n_genotype self) P (counts ! mm) g of
          Inl e \<Rightarrow> Inl e
        | Inr (counts_t, g') \<Rightarrow>
           (case check_stop_cond self fittest counts_t (mm + 1) of
              Inl e \<Rightarrow> Inl e
            | Inr stop \<Rightarrow>
               if stop then Inr ((counts @ [counts_t], mm + 1), g')
               else stop_loop self fl fittest P (counts @ [counts_t]) (mm + 1) g'))"
  by pat_completeness auto
termination
  by (relation "measure (\<lambda>(self, fl, fittest, P, counts, mm, g). n_timestep self - mm)")
     (auto simp: check_stop_cond_def Let_def split: if_splits)

declare stop_loop.simps [simp del]

text \<open>The loop of the fixed-horizon mode, \<open>while mm < self.n_timestep - 1\<close>.\<close>

function fixed_loop ::
  "population \<Rightarrow> (nat \<Rightarrow> int list \<Rightarrow> real list) \<Rightarrow> real list list \<Rightarrow> int list list \<Rightarrow> nat
     \<Rightarrow> rng \<Rightarrow> error + (int list list \<times> nat) \<times> rng" where
  "fixed_loop self fl P counts mm g =
     (if int mm < int (n_timestep self) - 1
      then
        case abm self fl mm (n_genotype self) P (counts ! mm) g of
          Inl e \<Rightarrow> Inl e
        | Inr (counts_t, g') \<Rightarrow> fixed_loop self fl P (counts[mm + 1 := counts_t]) (mm + 1) g'
      else Inr ((counts, mm), g))"
  by pat_completeness auto
termination
  by (relation "measure (\<lambda>(self, fl, P, counts, mm, g). n_timestep self - mm)") auto

declare fixed_loop.simps [simp del]

text \<open>
  \<open>run_abm(self)\<close>. In the fixed-horizon mode the trajectory has \<open>n_timestep\<close> rows, so
  row \<open>mm\<close> and row \<open>mm + 1\<close> exist throughout the loop; with \<open>n_timestep = 0\<close> the
  assignment to row 0 raises IndexError.
\<close>

definition run_abm ::
  "population \<Rightarrow> (nat \<Rightarrow> int list \<Rightarrow> real list) \<Rightarrow> nat \<Rightarrow> rng
     \<Rightarrow> error + (int list list \<times> nat) \<times> rng" where
  "run_abm self fl fittest g =
     (case random_mutations (n_genotype self) (n_genotype self) of
        Inl e \<Rightarrow> Inl e
      | Inr P \<Rightarrow>
         if stop_condition self
         then (case first_row self of
                 Inl e \<Rightarrow> Inl e
               | Inr row \<Rightarrow> stop_loop self fl fittest P [row] 0 g)
         else if n_timestep self = 0 then Inl IndexError
         else (case first_row self of
                 Inl e \<Rightarrow> Inl e
               | Inr row \<Rightarrow>
                  fixed_loop self fl P
                    ((replicate (n_timestep self) (replicate (n_genotype self) 0))[0 := row]) 0 g))"

section \<open>The ramp experiment (experiment.py, set\_ramp\_ud)\<close>

record Experiment =
  first_dose :: real
  second_dose :: real
  third_dose :: real
  ramp :: real
  transition_times :: "real list"

text \<open>
  The body of the loop over \<open>t\<close>; \<open>bounds\<close> is the list \<open>times\<close> of the source. At \<open>t = 0\<close>
  the index \<open>t-1\<close> is \<open>-1\<close>, the last entry of the array.
\<close>

definition ramp_value :: "Experiment \<Rightarrow> real \<Rightarrow> real list \<Rightarrow> real list \<Rightarrow> nat \<Rightarrow> real" where
  "ramp_value self slope bounds drug_curve t =
     (let previous = (if t = 0 then drug_curve ! (length drug_curve - 1)
                      else drug_curve ! (t - 1))
      in if real t < bounds ! 0 then first_dose self
         else if real t < bounds ! 1 then previous + slope
         else if real t < bounds ! 2 then second_dose self
         else if real t < bounds ! 3 \<and> previous + slope < third_dose self then previous + slope
         else third_dose self)"

text \<open>
  \<open>set_ramp_ud(self, p)\<close>: the curve it returns, which it also stores in \<open>p.drug_curve\<close>.
  Division by a zero \<open>ramp\<close> raises, and so does a list of fewer than two transition
  times.
\<close>

definition set_ramp_ud :: "Experiment \<Rightarrow> population \<Rightarrow> error + real list" where
  "set_ramp_ud self p =
     (if ramp self = 0 then Inl ZeroDivisionError
      else if length (transition_times self) < 2 then Inl IndexError
      else
        let slope = (second_dose self - first_dose self) / ramp self;
            buffer = ramp self / 2;
            bounds = [transition_times self ! 0 - buffer,
                     transition_times self ! 0 + buffer,
                     transition_times self ! 1 - buffer,
                     transition_times self ! 1 + buffer]
        in Inr (fold (\<lambda>t drug_curve. drug_curve[t := ramp_value self slope bounds drug_curve t])
                  [0..<n_timestep p] (replicate (n_timestep p) 0)))"

section \<open>Reference definitions for the proofs\<close>

text \<open>
  Exactly \<open>k\<close> update steps, starting at timestep \<open>mm\<close>: each step reads the last row of
  the trajectory and appends the row it returns. The first exception ends the run.
\<close>

fun abm_steps ::
  "population \<Rightarrow> (nat \<Rightarrow> int list \<Rightarrow> real list) \<Rightarrow> real list list \<Rightarrow> nat \<Rightarrow> nat \<Rightarrow> int list list
     \<Rightarrow> rng \<Rightarrow> error + int list list \<times> rng" where
  "abm_steps self fl P 0 mm rows g = Inr (rows, g)"
| "abm_steps self fl P (Suc k) mm rows g =
     (case abm self fl mm (n_genotype self) P (last rows) g of
        Inl e \<Rightarrow> Inl e
      | Inr (row, g') \<Rightarrow> abm_steps self fl P k (mm + 1) (rows @ [row]) g')"

text \<open>
  The padded binary string of a genotype among \<open>2 ^ A\<close>, and the number of places where
  two strings differ.
\<close>

definition itb :: "nat \<Rightarrow> nat \<Rightarrow> string" where
  "itb A n = zfill A (bin_digits n)"

definition hd_count :: "string \<Rightarrow> string \<Rightarrow> nat" where
  "hd_count s1 s2 = length (filter (\<lambda>(ch1, ch2). ch1 \<noteq> ch2) (zip s1 s2))"

definition H :: "nat \<Rightarrow> nat \<Rightarrow> nat \<Rightarrow> nat" where
  "H A i j = hd_count (itb A i) (itb A j)"

text \<open>How many genotypes \<open>j\<close> lie at distance \<open>k\<close> from genotype \<open>i\<close>.\<close>

definition cnt :: "nat \<Rightarrow> nat \<Rightarrow> nat \<Rightarrow> nat" where
  "cnt k A i = sum_list (map (\<lambda>j. if H A i j = k then 1 else 0) [0..<2 ^ A])"

text \<open>The Hamming distance of two genotypes, read off their low \<open>A\<close> bits.\<close>

definition hamming_bits :: "nat \<Rightarrow> nat \<Rightarrow> nat \<Rightarrow> nat" where
  "hamming_bits A i j = length (filter (\<lambda>m. bit i m \<noteq> bit j m) [0..<A])"

text \<open>The matrix with weight \<open>1 / A\<close> between genotypes at distance one.\<close>

definition hamming_matrix :: "nat \<Rightarrow> real list list" where
  "hamming_matrix A =
     map (\<lambda>i. map (\<lambda>j. threshold (H A i j) / real A) [0..<2 ^ A]) [0..<2 ^ A]"

section \<open>Concrete inputs\<close>

text \<open>The defaults of \<open>PopParams.__init__\<close>.\<close>

definition default_params :: pop_params where
  "default_params =
     \<lparr>death_rate = 1 / 10, mut_rate = 1 / 10 ^ 9, death_model = None, constant_pop = False,
      use_carrying_cap = True, n_timestep = 1000, timestep_scale = PyInt 1, passage = False,
      passage_time = 24, dilution = 40, max_cells = 10 ^ 9, stop_condition = False,
      debug = False, given_n_allele = None, given_n_genotype = None,
      given_init_counts = None\<rparr>"

text \<open>A population of one allele and two genotypes, with one cell of genotype 0.\<close>

definition two_genotypes :: population where
  "two_genotypes = pop_params.extend default_params (population.fields 1 2 [1, 0])"

text \<open>
  A population of two alleles and four genotypes, held at ten cells, over three
  timesteps.
\<close>

definition four_genotypes :: population where
  "four_genotypes =
     pop_params.extend (default_params\<lparr>constant_pop := True, max_cells := 10, n_timestep := 3\<rparr>)
       (population.fields 2 4 [3, 3, 3, 0])"

text \<open>A fitness evaluator that gives every genotype growth rate 1.\<close>

definition unit_fitness :: "nat \<Rightarrow> nat \<Rightarrow> int list \<Rightarrow> real list" where
  "unit_fitness n mm counts = replicate n 1"

text \<open>A generator whose raw draws are the given ones, followed by zeros.\<close>

definition scripted :: "nat list \<Rightarrow> rng" where
  "scripted xs = \<lparr>draws = (\<lambda>i. if i < length xs then xs ! i else 0), pos = 0\<rparr>"

text \<open>The ramp experiment with doses 0, 8 and 4, a ramp of 4 and transitions at 4 and 12.\<close>

definition ramp_example :: Experiment where
  "ramp_example =
     \<lparr>first_dose = 0, second_dose = 8, third_dose = 4, ramp = 4, transition_times = [4, 12]\<rparr>"

section \<open>Sums over lists\<close>

lemma collect_map_Inr_cong:
  "(\<And>x. x \<in> set xs \<Longrightarrow> f x = Inr (h x)) \<Longrightarrow> collect (map f xs) = Inr (map h xs)"
  by (induction xs) auto

lemma sum_list_double:
  "sum_list (map f [0..<2 * n]) = sum_list (map (\<lambda>j. f (2 * j) + f (2 * j + 1)) [0..<n])"
  for f :: "nat \<Rightarrow> nat"
  by (induction n) (simp_all add: add.assoc)

lemma sum_list_add_nat:
  "sum_list (map (\<lambda>j. f j + g j) xs) = sum_list (map f xs) + sum_list (map g xs)"
  for f :: "'a \<Rightarrow> nat"
  by (induction xs) auto

lemma sum_list_divide: "sum_list (map (\<lambda>j. f j / c) xs) = sum_list (map f xs) / c"
  for c :: real
  by (induction xs) (simp_all add: add_divide_distrib)

lemma map_div_zip:
  "map (\<lambda>(x, d). x / d) (zip (map f xs) (map g xs)) = map (\<lambda>j. f j / g j) xs"
  by (induction xs) simp_all

lemma sum_list_ceiling_ge: "sum_list ys \<le> of_int (sum_list (map ceiling ys))"
  for ys :: "real list"
  by (induction ys) (simp_all add: add_mono)

lemma sum_list_ceiling_less:
  "ys \<noteq> [] \<Longrightarrow> of_int (sum_list (map ceiling ys)) < sum_list ys + of_nat (length ys)"
  for ys :: "real list"
proof (induction ys)
  case Nil
  then show ?case by simp
next
  case (Cons y ys)
  have y: "of_int \<lceil>y\<rceil> < y + 1" by linarith
  show ?case
  proof (cases "ys = []")
    case True
    with y show ?thesis by simp
  next
    case False
    with Cons.IH have "of_int (sum_list (map ceiling ys)) < sum_list ys + of_nat (length ys)" .
    with y show ?thesis by simp
  qed
qed

lemma sum_list_scaled: "sum_list (map (\<lambda>c. of_int c * s) cs) = of_int (sum_list cs) * s"
  for s :: real
  by (induction cs) (simp_all add: algebra_simps)



lemma filter_single: "m < A \<Longrightarrow> filter (\<lambda>k. k = m) [0..<A] = [m]"
proof (induction A)
  case 0
  then show ?case by simp
next
  case (Suc A)
  show ?case
  proof (cases "m = A")
    case True
    have "filter (\<lambda>k. k = A) [0..<A] = []" by (simp add: filter_empty_conv)
    with True show ?thesis by simp
  next
    case False
    with Suc show ?thesis by simp
  qed
qed

lemma member_le_sum_list_int:
  "\<forall>c \<in> set cs. 0 \<le> c \<Longrightarrow> x \<in> set cs \<Longrightarrow> x \<le> sum_list cs"
  for cs :: "int list"
proof (induction cs)
  case Nil
  then show ?case by simp
next
  case (Cons c cs)
  have s: "0 \<le> sum_list cs" using Cons.prems(1) by (simp add: sum_list_nonneg)
  show ?case
  proof (cases "x = c")
    case True
    with s show ?thesis by simp
  next
    case False
    with Cons have "x \<le> sum_list cs" by simp
    moreover have "0 \<le> c" using Cons.prems(1) by simp
    ultimately show ?thesis by simp
  qed
qed

section \<open>Double-precision rounding\<close>

lemma floor_log2_nonneg: "0 \<le> floor_log2 n"
  by (induction n rule: floor_log2.induct) (subst floor_log2.simps, simp)

lemma floor_log2_bounds:
  "1 \<le> n \<Longrightarrow> 2 ^ nat (floor_log2 n) \<le> n \<and> n < 2 ^ nat (floor_log2 n + 1)"
proof (induction n rule: floor_log2.induct)
  case (1 n)
  show ?case
  proof (cases "n < 2")
    case True
    with 1(2) have "n = 1" by simp
    then show ?thesis by (subst (1 2) floor_log2.simps) simp
  next
    case False
    then have "1 \<le> n div 2" by simp
    from 1(1) [OF False this] have
      lo: "2 ^ nat (floor_log2 (n div 2)) \<le> n div 2" and
      hi: "n div 2 < 2 ^ nat (floor_log2 (n div 2) + 1)" by simp_all
    have e: "floor_log2 n = floor_log2 (n div 2) + 1"
      using False by (subst floor_log2.simps) simp
    have n1: "nat (floor_log2 (n div 2) + 1) = Suc (nat (floor_log2 (n div 2)))"
      using floor_log2_nonneg [of "n div 2"] by simp
    have n2: "nat (floor_log2 (n div 2) + 1 + 1) = Suc (Suc (nat (floor_log2 (n div 2))))"
      using floor_log2_nonneg [of "n div 2"] by simp
    have "2 * 2 ^ nat (floor_log2 (n div 2)) \<le> n" using lo by simp
    moreover have "n < 2 * 2 ^ nat (floor_log2 (n div 2) + 1)" using hi by simp
    ultimately show ?thesis unfolding e n1 n2 using n1 by simp
  qed
qed

lemma pow2_powi: "pow2 e = 2 powi e"
  by (simp add: pow2_def power_int_def field_simps)

lemma pow2_pos: "0 < pow2 e"
  by (simp add: pow2_powi)

lemma pow2_add: "pow2 (a + b) = pow2 a * pow2 b"
  by (simp add: pow2_powi power_int_add)

lemma pow2_nat: "0 \<le> e \<Longrightarrow> pow2 e = 2 ^ nat e"
  by (simp add: pow2_def)

lemma pow2_neg: "pow2 (- e) = 1 / pow2 e"
  by (simp add: pow2_powi power_int_minus field_simps)

lemma pow2_neg_le: "1 \<le> pow2 e * a \<Longrightarrow> pow2 (- e) \<le> a"
  unfolding pow2_neg using pow2_pos [of e] by (simp add: field_simps)

lemma pow2_neg_less: "pow2 e * a < 1 \<Longrightarrow> a < pow2 (- e)"
  unfolding pow2_neg using pow2_pos [of e] by (simp add: field_simps)

lemma exponent_bounds:
  assumes "0 < a"
  shows "pow2 (exponent a) \<le> a \<and> a < pow2 (exponent a + 1)"
proof (cases "1 \<le> a")
  case True
  then have n: "1 \<le> \<lfloor>a\<rfloor>" by simp
  let ?k = "floor_log2 \<lfloor>a\<rfloor>"
  have e: "exponent a = ?k" using True by (simp add: exponent_def)
  have k0: "0 \<le> ?k" by (rule floor_log2_nonneg)
  from floor_log2_bounds [OF n] have
    lo: "(2 :: int) ^ nat ?k \<le> \<lfloor>a\<rfloor>" and hi: "\<lfloor>a\<rfloor> < 2 ^ nat (?k + 1)" by simp_all
  have "(2 :: real) ^ nat ?k = of_int (2 ^ nat ?k)" by simp
  also have "\<dots> \<le> of_int \<lfloor>a\<rfloor>" using lo by (simp only: of_int_le_iff)
  also have "\<dots> \<le> a" by simp
  finally have l: "pow2 ?k \<le> a" using k0 by (simp add: pow2_nat)
  have "\<lfloor>a\<rfloor> + 1 \<le> 2 ^ nat (?k + 1)" using hi by simp
  then have "of_int (\<lfloor>a\<rfloor> + 1) \<le> (of_int (2 ^ nat (?k + 1)) :: real)"
    by (simp only: of_int_le_iff)
  then have A: "of_int \<lfloor>a\<rfloor> + 1 \<le> (2 :: real) ^ nat (?k + 1)" by simp
  have B: "a < of_int \<lfloor>a\<rfloor> + 1" by linarith
  from A B have "a < 2 ^ nat (?k + 1)" by linarith
  then have h: "a < pow2 (?k + 1)" using k0 by (simp add: pow2_nat)
  show ?thesis unfolding e using l h by simp
next
  case False
  let ?N = "\<lceil>1 / a\<rceil>"
  let ?k = "floor_log2 (?N - 1)"
  have b: "1 < 1 / a" using False assms by simp
  then have N: "1 \<le> ?N - 1" by linarith
  have e: "exponent a = - (?k + 1)" using False by (simp add: exponent_def)
  have k0: "0 \<le> ?k" by (rule floor_log2_nonneg)
  from floor_log2_bounds [OF N] have
    lo: "(2 :: int) ^ nat ?k \<le> ?N - 1" and hi: "?N - 1 < 2 ^ nat (?k + 1)" by simp_all
  have "?N \<le> 2 ^ nat (?k + 1)" using hi by simp
  then have "of_int ?N \<le> (of_int (2 ^ nat (?k + 1)) :: real)" by (simp only: of_int_le_iff)
  then have A: "of_int ?N \<le> (2 :: real) ^ nat (?k + 1)" by simp
  have B: "1 / a \<le> of_int ?N" by (rule le_of_int_ceiling)
  from A B have "1 / a \<le> 2 ^ nat (?k + 1)" by linarith
  then have "1 / a \<le> pow2 (?k + 1)" using k0 by (simp add: pow2_nat)
  then have "1 \<le> pow2 (?k + 1) * a" using assms by (simp add: field_simps)
  then have l: "pow2 (- (?k + 1)) \<le> a" by (rule pow2_neg_le)
  have "(of_int (2 ^ nat ?k) :: real) \<le> of_int (?N - 1)" using lo by (simp only: of_int_le_iff)
  then have A: "(2 :: real) ^ nat ?k \<le> of_int ?N - 1" by simp
  have B: "of_int ?N - 1 < 1 / a" by linarith
  from A B have "2 ^ nat ?k < 1 / a" by linarith
  then have "pow2 ?k < 1 / a" using k0 by (simp add: pow2_nat)
  then have "pow2 ?k * a < 1" using assms by (simp add: field_simps)
  then have "a < pow2 (- ?k)" by (rule pow2_neg_less)
  moreover have "- (?k + 1) + 1 = - ?k" by simp
  ultimately have h: "a < pow2 (- (?k + 1) + 1)" by simp
  show ?thesis unfolding e using l h by simp
qed

lemma round_even_error: "\<bar>of_int (round_even q) - q\<bar> \<le> 1 / 2"
  unfolding round_even_def Let_def by (auto; linarith)

lemma round_even_of_int: "round_even (of_int z) = z"
  by (simp add: round_even_def)

lemma round_even_nonneg: "0 \<le> q \<Longrightarrow> 0 \<le> round_even q"
  unfolding round_even_def Let_def by (auto; linarith)


lemma pow2_mono: "a \<le> b \<Longrightarrow> pow2 a \<le> pow2 b"
  by (simp add: pow2_powi power_int_increasing)

lemma pow2_52: "pow2 (e - 52) = pow2 e / 2 ^ 52"
proof -
  have "pow2 (e - 52) = pow2 (e + (- 52))" by simp
  also have "\<dots> = pow2 e * pow2 (- 52)" by (rule pow2_add)
  also have "pow2 (- 52) = 1 / 2 ^ 52" by (simp add: pow2_def)
  finally show ?thesis by simp
qed

lemma round_double_error: "\<bar>round_double x - x\<bar> \<le> \<bar>x\<bar> / 2 ^ 53"
proof (cases "x = 0")
  case True
  then show ?thesis by (simp add: round_double_def)
next
  case False
  define a where "a = \<bar>x\<bar>"
  define u where "u = pow2 (exponent a - 52)"
  define m where "m = (of_int (round_even (a / u)) :: real)"
  have a: "0 < a" using False by (simp add: a_def)
  have u: "0 < u" by (simp add: u_def pow2_pos)
  have r: "round_double x = sgn x * (m * u)"
    using False by (simp add: round_double_def Let_def a_def u_def m_def)
  have x: "x = sgn x * a" by (simp add: a_def sgn_mult_abs)
  have "round_double x - x = sgn x * (m * u - a)"
    by (subst (2) x, subst r) (simp add: algebra_simps)
  then have "\<bar>round_double x - x\<bar> = \<bar>m * u - a\<bar>"
    using False by (simp add: abs_mult abs_sgn_eq)
  also have "m * u - a = u * (m - a / u)" using u by (simp add: field_simps)
  also have "\<bar>u * (m - a / u)\<bar> = u * \<bar>m - a / u\<bar>" using u by (simp add: abs_mult)
  also have "\<dots> \<le> u * (1 / 2)"
    using round_even_error [of "a / u"] u unfolding m_def by (intro mult_left_mono) simp_all
  also have "u * (1 / 2) = pow2 (exponent a) / 2 ^ 53" by (simp add: u_def pow2_52)
  also have "\<dots> \<le> a / 2 ^ 53"
    using exponent_bounds [OF a] by (simp add: divide_right_mono)
  finally show ?thesis by (simp add: a_def)
qed


lemma round_double_nonneg: "0 \<le> x \<Longrightarrow> 0 \<le> round_double x"
proof -
  assume "0 \<le> x"
  then have "\<bar>x\<bar> / 2 ^ 53 \<le> x" by (simp add: field_simps)
  with round_double_error [of x] show ?thesis by linarith
qed

lemma round_double_of_int:
  assumes "\<bar>z\<bar> < 2 ^ 53"
  shows "round_double (of_int z) = of_int z"
proof (cases "z = 0")
  case True
  then show ?thesis by (simp add: round_double_def)
next
  case False
  define a where "a = \<bar>real_of_int z\<bar>"
  define e where "e = exponent a"
  define u where "u = pow2 (e - 52)"
  have a: "0 < a" using False by (simp add: a_def)
  have "a < 2 ^ 53"
  proof -
    have "of_int \<bar>z\<bar> < (of_int (2 ^ 53) :: real)" using assms by (simp only: of_int_less_iff)
    then show ?thesis by (simp add: a_def)
  qed
  have e52: "e \<le> 52"
  proof (rule ccontr)
    assume "\<not> e \<le> 52"
    then have "53 \<le> e" by simp
    then have "pow2 53 \<le> pow2 e" by (rule pow2_mono)
    moreover have "pow2 53 = 2 ^ 53" by (simp add: pow2_def)
    moreover have "pow2 e \<le> a" using exponent_bounds [OF a] by (simp add: e_def)
    ultimately show False using \<open>a < 2 ^ 53\<close> by linarith
  qed
  have "pow2 (e - 52) * pow2 (52 - e) = pow2 0" by (simp add: pow2_add [symmetric])
  then have inv: "u * pow2 (52 - e) = 1" by (simp add: u_def pow2_def)
  have u: "0 < u" by (simp add: u_def pow2_pos)
  have "a / u = a * pow2 (52 - e)" using inv u by (simp add: field_simps)
  also have "pow2 (52 - e) = 2 ^ nat (52 - e)" using e52 by (simp add: pow2_nat)
  also have "a * 2 ^ nat (52 - e) = of_int (\<bar>z\<bar> * 2 ^ nat (52 - e))" by (simp add: a_def)
  finally have q: "a / u = of_int (\<bar>z\<bar> * 2 ^ nat (52 - e))" .
  have "of_int (round_even (a / u)) * u = (a / u) * u"
    by (subst q, subst round_even_of_int, subst q) simp
  also have "\<dots> = a" using u by simp
  finally have m: "of_int (round_even (a / u)) * u = a" .
  have "round_double (of_int z) = sgn (of_int z) * (of_int (round_even (a / u)) * u)"
    using False by (simp add: round_double_def Let_def a_def u_def e_def)
  also have "\<dots> = sgn (real_of_int z) * a" by (simp only: m)
  also have "\<dots> = of_int z" by (simp add: a_def sgn_mult_abs)
  finally show ?thesis .
qed

text \<open>One rounded operation on a non-negative value stays within the relative error.\<close>

lemma round_double_between:
  assumes "0 \<le> x"
  shows "x * (1 - 1 / 2 ^ 53) \<le> round_double x" "round_double x \<le> x * (1 + 1 / 2 ^ 53)"
proof -
  have "\<bar>round_double x - x\<bar> \<le> x / 2 ^ 53" using round_double_error [of x] assms by simp
  then have e: "round_double x - x \<le> x / 2 ^ 53" "x - round_double x \<le> x / 2 ^ 53"
    by linarith+
  show "x * (1 - 1 / 2 ^ 53) \<le> round_double x" using e(2) by (simp add: algebra_simps)
  show "round_double x \<le> x * (1 + 1 / 2 ^ 53)" using e(1) by (simp add: algebra_simps)
qed

lemma rescale_upper:
  assumes "0 \<le> m" "m < 2 ^ 51"
  shows "m * ((1 + 1 / 2 ^ 53) * (1 + 1 / 2 ^ 53)) < m + (1 :: real)"
proof -
  have "(1 + 1 / 2 ^ 53) * (1 + 1 / 2 ^ 53) \<le> (1 + 3 / 2 ^ 53 :: real)" by simp
  then have "m * ((1 + 1 / 2 ^ 53) * (1 + 1 / 2 ^ 53)) \<le> m * (1 + 3 / 2 ^ 53)"
    using assms(1) by (rule mult_left_mono)
  also have "\<dots> = m + m * (3 / 2 ^ 53)" by (simp add: algebra_simps)
  also have "m * (3 / 2 ^ 53) \<le> 2 ^ 51 * (3 / 2 ^ 53)"
    using assms(2) by (intro mult_right_mono) simp_all
  finally show ?thesis by simp
qed

lemma rescale_lower:
  assumes "0 \<le> m" "m < 2 ^ 51"
  shows "m - (1 :: real) < m * ((1 - 1 / 2 ^ 53) * (1 - 1 / 2 ^ 53))"
proof -
  have "(1 - 2 / 2 ^ 53 :: real) \<le> (1 - 1 / 2 ^ 53) * (1 - 1 / 2 ^ 53)" by simp
  then have "m * (1 - 2 / 2 ^ 53) \<le> m * ((1 - 1 / 2 ^ 53) * (1 - 1 / 2 ^ 53))"
    using assms(1) by (rule mult_left_mono)
  moreover have "m * (1 - 2 / 2 ^ 53) = m - m * (2 / 2 ^ 53)" by (simp add: algebra_simps)
  moreover have "m * (2 / 2 ^ 53) \<le> 2 ^ 51 * (2 / 2 ^ 53)"
    using assms(2) by (intro mult_right_mono) simp_all
  ultimately show ?thesis by simp
qed

section \<open>Conversions to whole numbers\<close>

lemma py_int_of_int: "py_int (of_int z) = z"
  by (simp add: py_int_def)

lemma astype_int_of_int: "- (2 ^ 63) \<le> z \<Longrightarrow> z < 2 ^ 63 \<Longrightarrow> astype_int (of_int z) = z"
proof -
  assume a: "- (2 ^ 63) \<le> z" and b: "z < 2 ^ 63"
  have "(of_int (- (2 ^ 63)) :: real) \<le> of_int z" using a by (simp only: of_int_le_iff)
  moreover have "(of_int z :: real) < of_int (2 ^ 63)" using b by (simp only: of_int_less_iff)
  ultimately show ?thesis by (simp add: astype_int_def py_int_of_int)
qed








section \<open>Binary strings of genotypes\<close>

lemma ilog2_pow: "ilog2 (2 ^ A) = A"
  by (induction A) (auto simp: ilog2.simps)

lemma length_bin_digits: "0 < A \<Longrightarrow> n < 2 ^ A \<Longrightarrow> length (bin_digits n) \<le> A"
proof (induction A arbitrary: n)
  case 0
  then show ?case by simp
next
  case (Suc A)
  show ?case
  proof (cases "n < 2")
    case True
    then show ?thesis by (simp add: bin_digits.simps)
  next
    case False
    then have "0 < A" using Suc.prems by (cases A) auto
    moreover have "n div 2 < 2 ^ A" using Suc.prems by auto
    ultimately have "length (bin_digits (n div 2)) \<le> A" by (rule Suc.IH)
    with False show ?thesis by (simp add: bin_digits.simps)
  qed
qed

lemma length_itb: "0 < A \<Longrightarrow> n < 2 ^ A \<Longrightarrow> length (itb A n) = A"
  using length_bin_digits [of A n] by (simp add: itb_def zfill_def)

lemma itb_Suc:
  assumes "0 < A" "n < 2 ^ Suc A"
  shows "itb (Suc A) n = itb A (n div 2) @ [digit (n mod 2)]"
proof (cases "n < 2")
  case True
  then have "n div 2 = 0" "n mod 2 = n" by auto
  moreover have "bin_digits 0 = [CHR ''0'']" by (simp add: bin_digits.simps digit_def)
  moreover have "bin_digits n = [digit n]" using True by (simp add: bin_digits.simps)
  ultimately show ?thesis using assms(1)
    by (cases A) (simp_all add: itb_def zfill_def replicate_append_same)
next
  case False
  have "n div 2 < 2 ^ A" using assms by auto
  then have "length (bin_digits (n div 2)) \<le> A" using assms(1) by (rule length_bin_digits[rotated])
  then show ?thesis using False
    by (simp add: itb_def zfill_def bin_digits.simps[of n] Suc_diff_le)
qed

lemma hd_count_snoc:
  "length xs = length ys \<Longrightarrow>
   hd_count (xs @ [a]) (ys @ [b]) = hd_count xs ys + (if a \<noteq> b then 1 else 0)"
  by (simp add: hd_count_def)

lemma hd_count_sym: "hd_count xs ys = hd_count ys xs"
proof -
  have "filter (\<lambda>(ch1, ch2). ch1 \<noteq> ch2) (zip ys xs)
      = map (\<lambda>(a, b). (b, a)) (filter (\<lambda>(ch1, ch2). ch1 \<noteq> ch2) (zip xs ys))"
    by (induction xs ys rule: list_induct2') auto
  then show ?thesis by (simp add: hd_count_def)
qed

lemma digit_inj: "a < 2 \<Longrightarrow> b < 2 \<Longrightarrow> digit a = digit b \<longleftrightarrow> a = b"
  by (auto simp: digit_def)

lemma H_Suc:
  assumes "0 < A" "i < 2 ^ Suc A" "j < 2 ^ Suc A"
  shows "H (Suc A) i j = H A (i div 2) (j div 2) + (if i mod 2 \<noteq> j mod 2 then 1 else 0)"
proof -
  have "length (itb A (i div 2)) = length (itb A (j div 2))"
    using assms by (simp add: length_itb)
  then show ?thesis
    using assms by (simp add: H_def itb_Suc hd_count_snoc digit_inj)
qed

lemma H_one: "i < 2 \<Longrightarrow> j < 2 \<Longrightarrow> H (Suc 0) i j = (if i = j then 0 else 1)"
  by (auto simp: H_def itb_def zfill_def bin_digits.simps hd_count_def digit_def)

lemma H_sym: "H A i j = H A j i"
  by (simp add: H_def hd_count_sym)

lemma cnt_base: "i < 2 \<Longrightarrow> cnt 0 (Suc 0) i = 1 \<and> cnt (Suc 0) (Suc 0) i = 1"
  unfolding cnt_def
  by (cases "i = 0") (auto simp: H_one upt_rec numeral_2_eq_2 less_Suc_eq)

lemma cnt_step0:
  assumes "0 < A" "i < 2 ^ Suc A"
  shows "cnt 0 (Suc A) i = cnt 0 A (i div 2)"
proof -
  have "cnt 0 (Suc A) i
      = sum_list (map (\<lambda>j. (if H (Suc A) i (2 * j) = 0 then 1 else 0)
                          + (if H (Suc A) i (2 * j + 1) = 0 then 1 else 0)) [0..<2 ^ A])"
    unfolding cnt_def using sum_list_double [of _ "2 ^ A"] by simp
  also have "\<dots> = sum_list (map (\<lambda>j. if H A (i div 2) j = 0 then 1 else 0) [0..<2 ^ A])"
  proof (rule arg_cong [where f = sum_list], rule map_cong [OF refl])
    fix j assume "j \<in> set [0..<2 ^ A]"
    then have j: "2 * j < 2 ^ Suc A" "2 * j + 1 < 2 ^ Suc A" by auto
    have "i mod 2 = 0 \<or> i mod 2 = 1" by auto
    then show "(if H (Suc A) i (2 * j) = 0 then 1 else 0)
          + (if H (Suc A) i (2 * j + 1) = 0 then 1 else 0)
        = (if H A (i div 2) j = 0 then 1 else (0::nat))"
      using assms j by (auto simp: H_Suc)
  qed
  finally show ?thesis by (simp add: cnt_def)
qed

lemma cnt_step1:
  assumes "0 < A" "i < 2 ^ Suc A"
  shows "cnt (Suc 0) (Suc A) i = cnt (Suc 0) A (i div 2) + cnt 0 A (i div 2)"
proof -
  have "cnt (Suc 0) (Suc A) i
      = sum_list (map (\<lambda>j. (if H (Suc A) i (2 * j) = Suc 0 then 1 else 0)
                          + (if H (Suc A) i (2 * j + 1) = Suc 0 then 1 else 0)) [0..<2 ^ A])"
    unfolding cnt_def using sum_list_double [of _ "2 ^ A"] by simp
  also have "\<dots> = sum_list (map (\<lambda>j. (if H A (i div 2) j = Suc 0 then 1 else 0)
                                    + (if H A (i div 2) j = 0 then 1 else 0)) [0..<2 ^ A])"
  proof (rule arg_cong [where f = sum_list], rule map_cong [OF refl])
    fix j assume "j \<in> set [0..<2 ^ A]"
    then have j: "2 * j < 2 ^ Suc A" "2 * j + 1 < 2 ^ Suc A" by auto
    have "i mod 2 = 0 \<or> i mod 2 = 1" by auto
    then show "(if H (Suc A) i (2 * j) = Suc 0 then 1 else 0)
          + (if H (Suc A) i (2 * j + 1) = Suc 0 then 1 else 0)
        = (if H A (i div 2) j = Suc 0 then 1 else 0)
          + (if H A (i div 2) j = 0 then 1 else (0::nat))"
      using assms j by (auto simp: H_Suc)
  qed
  finally show ?thesis by (simp add: cnt_def sum_list_add_nat)
qed

lemma cnt_eq: "0 < A \<Longrightarrow> i < 2 ^ A \<Longrightarrow> cnt 0 A i = 1 \<and> cnt (Suc 0) A i = A"
proof (induction A arbitrary: i)
  case 0
  then show ?case by simp
next
  case (Suc A)
  show ?case
  proof (cases "A = 0")
    case True
    with Suc.prems cnt_base [of i] show ?thesis by simp
  next
    case False
    then have A: "0 < A" by simp
    have "i div 2 < 2 ^ A" using Suc.prems by auto
    with A have "cnt 0 A (i div 2) = 1 \<and> cnt (Suc 0) A (i div 2) = A" by (rule Suc.IH)
    then show ?thesis using cnt_step0 [OF A Suc.prems(2)] cnt_step1 [OF A Suc.prems(2)] by simp
  qed
qed

section \<open>Hamming distance and bit flips\<close>

lemma hamming_bits_Suc:
  "hamming_bits (Suc A) i j
     = hamming_bits A (i div 2) (j div 2) + (if i mod 2 \<noteq> j mod 2 then 1 else 0)"
proof -
  have upt: "[0..<Suc A] = 0 # map Suc [0..<A]"
    by (simp add: upt_conv_Cons map_Suc_upt del: upt_Suc)
  have par: "(bit i 0 \<noteq> bit j 0) \<longleftrightarrow> i mod 2 \<noteq> j mod 2"
    unfolding bit_0 by presburger
  have "hamming_bits (Suc A) i j
      = (if bit i 0 \<noteq> bit j 0 then 1 else 0)
        + length (filter (\<lambda>m. bit i (Suc m) \<noteq> bit j (Suc m)) [0..<A])"
    unfolding hamming_bits_def upt by (simp add: filter_map comp_def del: upt_Suc)
  then show ?thesis
    unfolding par by (simp add: hamming_bits_def bit_Suc)
qed

lemma H_eq_hamming_bits:
  "0 < A \<Longrightarrow> i < 2 ^ A \<Longrightarrow> j < 2 ^ A \<Longrightarrow> H A i j = hamming_bits A i j"
proof (induction A arbitrary: i j)
  case 0
  then show ?case by simp
next
  case (Suc A)
  show ?case
  proof (cases "A = 0")
    case True
    have "hamming_bits (Suc 0) i j = (if i mod 2 \<noteq> j mod 2 then 1 else 0)"
      unfolding hamming_bits_Suc by (simp add: hamming_bits_def)
    moreover have "i mod 2 = i" "j mod 2 = j" using Suc.prems True by auto
    ultimately show ?thesis using Suc.prems True by (simp add: H_one)
  next
    case False
    then have A: "0 < A" by simp
    have "i div 2 < 2 ^ A" "j div 2 < 2 ^ A" using Suc.prems by auto
    with A have "H A (i div 2) (j div 2) = hamming_bits A (i div 2) (j div 2)"
      by (rule Suc.IH)
    then show ?thesis
      using H_Suc [OF A Suc.prems(2,3)] by (simp add: hamming_bits_Suc)
  qed
qed

lemma high_bits_clear: "i < 2 ^ A \<Longrightarrow> A \<le> k \<Longrightarrow> \<not> bit i k" for i :: nat
proof -
  assume "i < 2 ^ A" "A \<le> k"
  then have "i < 2 ^ k"
    by (meson less_le_trans one_le_numeral power_increasing)
  then show ?thesis by (simp add: bit_iff_odd)
qed

lemma hamming_bits_flip:
  assumes "m < A"
  shows "hamming_bits A i (xor i (push_bit m 1)) = 1"
proof -
  have "(\<lambda>k. bit i k \<noteq> bit (xor i (push_bit m 1)) k) = (\<lambda>k. k = m)"
    by (auto simp: bit_xor_iff bit_exp_iff fun_eq_iff)
  then show ?thesis
    using assms by (simp add: hamming_bits_def filter_single)
qed

lemma hamming_bits_one_flip:
  assumes "i < 2 ^ A" "j < 2 ^ A" "hamming_bits A i j = 1"
  shows "\<exists>m < A. j = xor i (push_bit m 1)"
proof -
  let ?D = "filter (\<lambda>m. bit i m \<noteq> bit j m) [0..<A]"
  from assms(3) have "length ?D = Suc 0" by (simp add: hamming_bits_def)
  then obtain m where D: "?D = [m]"
    by (cases ?D) auto
  then have "m \<in> set ?D" by simp
  then have m: "m < A" "bit i m \<noteq> bit j m" by auto
  have other: "bit i k = bit j k" if "k \<noteq> m" for k
  proof (cases "k < A")
    case True
    show ?thesis
    proof (rule ccontr)
      assume "bit i k \<noteq> bit j k"
      with True have "k \<in> set ?D" by simp
      with D that show False by simp
    qed
  next
    case False
    then show ?thesis using assms(1,2) by (simp add: high_bits_clear)
  qed
  have "j = xor i (push_bit m 1)"
  proof (rule bit_eqI)
    fix k
    show "bit j k = bit (xor i (push_bit m 1)) k"
      using m other [of k] by (cases "k = m") (auto simp: bit_xor_iff bit_exp_iff)
  qed
  with m(1) show ?thesis by blast
qed

lemma H_one_iff_neighbor:
  assumes "0 < A" "i < 2 ^ A" "j < 2 ^ A"
  shows "H A i j = 1 \<longleftrightarrow> j \<in> set (gen_neighbors A i)"
proof
  assume "H A i j = 1"
  then have "hamming_bits A i j = 1" using assms by (simp add: H_eq_hamming_bits)
  from hamming_bits_one_flip [OF assms(2,3) this] show "j \<in> set (gen_neighbors A i)"
    by (auto simp: gen_neighbors_def)
next
  assume "j \<in> set (gen_neighbors A i)"
  then obtain m where "m < A" "j = xor i (push_bit m 1)"
    by (auto simp: gen_neighbors_def)
  then have "hamming_bits A i j = 1" using hamming_bits_flip [of m A i] by simp
  then show "H A i j = 1" using assms by (simp add: H_eq_hamming_bits)
qed

section \<open>The mutation matrix of a full genotype space\<close>

lemma int_to_binary_pow: "int_to_binary (2 ^ A) i = Inr (itb A i)"
  by (simp add: int_to_binary_def itb_def ilog2_pow)

lemma trans_entry_pow:
  assumes "0 < A" "i < 2 ^ A" "j < 2 ^ A"
  shows "trans_entry (2 ^ A) i j = Inr (H A i j)"
  using assms
  by (simp add: trans_entry_def int_to_binary_pow hammingDistance_def H_def hd_count_def length_itb)

lemma trans_raw_pow:
  assumes "0 < A"
  shows "trans_raw (2 ^ A) (2 ^ A) = Inr (map (\<lambda>i. map (\<lambda>j. H A i j) [0..<2 ^ A]) [0..<2 ^ A])"
  unfolding trans_raw_def
  by (rule collect_map_Inr_cong, rule collect_map_Inr_cong) (simp add: trans_entry_pow assms)

lemma threshold_eq: "threshold h = (if h = Suc 0 then 1 else 0)"
  by (simp add: threshold_def)

lemma sum_list_threshold:
  "sum_list (map (\<lambda>j. threshold (f j)) xs) = real (sum_list (map (\<lambda>j. if f j = Suc 0 then 1 else 0) xs))"
  by (induction xs) (simp_all add: threshold_eq)

lemma row_sum_pow:
  assumes "0 < A" "i < 2 ^ A"
  shows "sum_list (map (\<lambda>j. threshold (H A i j)) [0..<2 ^ A]) = real A"
  using cnt_eq [OF assms] by (simp add: sum_list_threshold cnt_def)

lemma random_mutations_pow:
  assumes "0 < A"
  shows "random_mutations (2 ^ A) (2 ^ A) = Inr (hamming_matrix A)"
proof -
  let ?N = "2 ^ A :: nat"
  let ?T = "map (\<lambda>i. map (\<lambda>j. threshold (H A i j)) [0..<?N]) [0..<?N]"
  have sums: "map sum_list ?T = map (\<lambda>i. real A) [0..<?N]"
    by (simp add: comp_def row_sum_pow assms)
  have nz: "0 \<notin> set (map sum_list ?T)"
    unfolding sums using assms by auto
  have rows: "map (\<lambda>row. map (\<lambda>(x, d). x / d) (zip row (map (\<lambda>i. real A) [0..<?N]))) ?T
      = hamming_matrix A"
    unfolding hamming_matrix_def
    by (simp add: map_div_zip)
  have "normalize ?T = Inr (hamming_matrix A)"
    using nz rows unfolding normalize_def Let_def sums by simp
  then show ?thesis
    by (simp add: random_mutations_def trans_raw_pow assms comp_def)
qed

lemma hamming_matrix_nth:
  "i < 2 ^ A \<Longrightarrow> j < 2 ^ A \<Longrightarrow> hamming_matrix A ! i ! j = threshold (H A i j) / real A"
  by (simp add: hamming_matrix_def)

lemma hamming_matrix_row_sum:
  assumes "0 < A" "i < 2 ^ A"
  shows "sum_list (hamming_matrix A ! i) = 1"
  using assms by (simp add: hamming_matrix_def sum_list_divide row_sum_pow)

section \<open>Shapes through the update step\<close>

lemma poisson_vec_length: "poisson_vec lams g = Inr (xs, g') \<Longrightarrow> length xs = length lams"
  by (induction lams arbitrary: g xs g') (auto split: sum.splits prod.splits)

lemma mutate_one_length:
  "mutate_one self n P m genotype ((d, c), g) = Inr ((d', c'), g') \<Longrightarrow> length c = n \<Longrightarrow>
     length d' = length d \<and> length c' = n"
  by (auto simp: mutate_one_def Let_def bincount_def split: sum.splits prod.splits)

lemma mutate_loop_length:
  "mutate_loop self n P m gs ((d, c), g) = Inr ((d', c'), g') \<Longrightarrow> length c = n \<Longrightarrow>
     length d' = length d \<and> length c' = n"
proof (induction gs arbitrary: d c g)
  case Nil
  then show ?case by simp
next
  case (Cons a gs)
  from Cons.prems(1) obtain d1 c1 g1 where
    one: "mutate_one self n P m a ((d, c), g) = Inr ((d1, c1), g1)" and
    rest: "mutate_loop self n P m gs ((d1, c1), g1) = Inr ((d', c'), g')"
    by (auto split: sum.splits)
  from mutate_one_length [OF one Cons.prems(2)] have l: "length d1 = length d" "length c1 = n"
    by simp_all
  from Cons.IH [OF rest l(2)] l show ?case by simp
qed

lemma default_deaths_length:
  "default_deaths f d c g = Inr ((ct, dc), g') \<Longrightarrow> length f = length c \<Longrightarrow>
     length ct = length c \<and> length dc = length c"
  by (auto simp: default_deaths_def Let_def split: sum.splits prod.splits dest!: poisson_vec_length)

lemma pharmacodynamic_deaths_length:
  "pharmacodynamic_deaths f d c g = Inr ((ct, dc), g') \<Longrightarrow> length f = length c \<Longrightarrow>
     length ct = length c \<and> length dc = length c"
  by (auto simp: pharmacodynamic_deaths_def Let_def split: sum.splits prod.splits
           dest!: poisson_vec_length)

lemma passage_cells_length: "passage_cells self mm c = Inr c' \<Longrightarrow> length c' = length c"
  by (auto simp: passage_cells_def split: if_splits list.splits)

lemma mutate_one_constant_pop:
  "mutate_one (self\<lparr>constant_pop := b\<rparr>) n P m genotype st = mutate_one self n P m genotype st"
  by (simp add: mutate_one_def)

lemma mutate_loop_constant_pop:
  "mutate_loop (self\<lparr>constant_pop := b\<rparr>) n P m gs st = mutate_loop self n P m gs st"
  by (induction gs arbitrary: st) (simp_all add: mutate_one_constant_pop split: sum.splits)

lemma abm_rescales:
  assumes "constant_pop self"
  shows "abm self fl mm n P counts g
         = (case abm (self\<lparr>constant_pop := False\<rparr>) fl mm n P counts g of
              Inl e \<Rightarrow> Inl e
            | Inr (counts_t, g') \<Rightarrow>
               (case normalize_pop self counts_t of
                  Inl e \<Rightarrow> Inl e
                | Inr c \<Rightarrow> Inr (c, g')))"
proof -
  have pc: "passage_cells (self\<lparr>constant_pop := False\<rparr>) = passage_cells self"
    by (simp add: passage_cells_def fun_eq_iff)
  show ?thesis
    unfolding abm_def pc mutate_loop_constant_pop
    using assms by (simp add: Let_def split: sum.splits prod.splits)
qed

lemma abm_length:
  assumes "\<not> constant_pop self" "abm self fl mm n P counts g = Inr (counts', g')"
  shows "length counts' = n"
proof -
  note run = assms(2)
  let ?ts = "num_val (timestep_scale self)"
  let ?fit = "map (\<lambda>f. f * ?ts) (fl mm counts)"
  from run have ws: "well_shaped n P (fl mm counts) counts"
    by (auto simp: abm_def split: if_splits)
  from run ws obtain c1 where pc: "passage_cells self mm counts = Inr c1"
    by (auto simp: abm_def Let_def split: sum.splits)
  have l1: "length c1 = n" "length ?fit = length c1"
    using passage_cells_length [OF pc] ws by (simp_all add: well_shaped_def)
  let ?deaths = "if death_model self = Some ''pharmacodynamic''
                 then pharmacodynamic_deaths ?fit (death_rate self * ?ts) c1 g
                 else default_deaths ?fit (death_rate self * ?ts) c1 g"
  from run ws pc obtain ct dc g1 where de: "?deaths = Inr ((ct, dc), g1)"
    by (auto simp: abm_def Let_def split: sum.splits if_splits)
  have l2: "length ct = n" "length dc = n"
    using de l1 default_deaths_length [of ?fit _ c1 g ct dc g1]
      pharmacodynamic_deaths_length [of ?fit _ c1 g ct dc g1]
    by (auto split: if_splits)
  let ?ct = "map (\<lambda>c. if c < 0 then 0 else c) ct"
  from run ws pc de obtain d2 c2 g2 where
    ml: "mutate_loop self n P (mut_rate self * ?ts) [0..<n] ((dc, ?ct), g1)
           = Inr ((d2, c2), g2)"
    and fin: "counts' = map2 (+) c2 d2"
    using assms(1)
    by (auto simp: abm_def Let_def split: sum.splits if_splits prod.splits)
  from mutate_loop_length [OF ml] l2 have "length d2 = n" "length c2 = n" by simp_all
  then show ?thesis by (simp add: fin)
qed

section \<open>The rescaling of a constant population\<close>

lemma normalize_pop_bounds:
  assumes nonneg: "\<forall>c \<in> set cs. 0 \<le> c"
    and pos: "0 < sum_list cs" and small: "sum_list cs < 2 ^ 53"
    and M0: "0 \<le> max_cells self" and M1: "max_cells self < 2 ^ 51"
  shows "\<exists>out. normalize_pop self cs = Inr out
           \<and> max_cells self \<le> sum_list out
           \<and> sum_list out \<le> max_cells self + int (length cs)"
proof -
  define S where "S = sum_list cs"
  define M where "M = max_cells self"
  define u where "u = (1 / 2 ^ 53 :: real)"
  define t where "t = (of_int M / of_int S :: real)"
  define scale where "scale = float_div (to_double M) (to_double S)"
  define p where "p = (\<lambda>c. float_mul (to_double c) scale)"
  have Sr: "0 < (of_int S :: real)" using pos by (simp add: S_def)
  have Mr: "0 \<le> (of_int M :: real)" "(of_int M :: real) < 2 ^ 51"
  proof -
    show "0 \<le> (of_int M :: real)" using M0 by (simp add: M_def)
    have "(of_int M :: real) < of_int (2 ^ 51)" using M1 unfolding M_def by (simp only: of_int_less_iff)
    then show "(of_int M :: real) < 2 ^ 51" by simp
  qed
  have t0: "0 \<le> t" using Sr Mr(1) by (simp add: t_def)
  have St: "of_int S * t = of_int M" using Sr by (simp add: t_def)
  have dS: "to_double S = of_int S"
    unfolding to_double_def using pos small by (intro round_double_of_int) (simp add: S_def)
  have dM: "to_double M = of_int M"
    unfolding to_double_def using M0 M1 by (intro round_double_of_int) (simp add: M_def)
  have sc: "scale = round_double t" by (simp add: scale_def float_div_def dS dM t_def)
  have sc_lo: "t * (1 - u) \<le> scale" and sc_hi: "scale \<le> t * (1 + u)"
    unfolding sc u_def using round_double_between [OF t0] by simp_all
  have sc0: "0 \<le> scale" unfolding sc using t0 by (rule round_double_nonneg)
  have u1: "0 \<le> 1 - u" "0 \<le> 1 + u" by (simp_all add: u_def)
  have elem: "0 \<le> p c \<and> of_int c * (t * ((1 - u) * (1 - u))) \<le> p c
                \<and> p c \<le> of_int c * (t * ((1 + u) * (1 + u)))"
    if c: "c \<in> set cs" for c
  proof -
    have c0: "0 \<le> c" using nonneg c by simp
    have cS: "c \<le> S" unfolding S_def using nonneg c by (rule member_le_sum_list_int)
    have dc: "to_double c = of_int c"
      unfolding to_double_def using c0 cS small by (intro round_double_of_int) (simp add: S_def)
    have cr: "0 \<le> (of_int c :: real)" using c0 by simp
    have x0: "0 \<le> of_int c * scale" using cr sc0 by simp
    have pc: "p c = round_double (of_int c * scale)" by (simp add: p_def float_mul_def dc)
    have lo: "of_int c * scale * (1 - u) \<le> p c" and hi: "p c \<le> of_int c * scale * (1 + u)"
      unfolding pc u_def using round_double_between [OF x0] by simp_all
    have "of_int c * (t * (1 - u)) \<le> of_int c * scale" using sc_lo cr by (rule mult_left_mono)
    then have "of_int c * (t * (1 - u)) * (1 - u) \<le> of_int c * scale * (1 - u)"
      using u1(1) by (rule mult_right_mono)
    with lo have l: "of_int c * (t * ((1 - u) * (1 - u))) \<le> p c" by (simp add: mult.assoc)
    have "of_int c * scale \<le> of_int c * (t * (1 + u))" using sc_hi cr by (rule mult_left_mono)
    then have "of_int c * scale * (1 + u) \<le> of_int c * (t * (1 + u)) * (1 + u)"
      using u1(2) by (rule mult_right_mono)
    with hi have h: "p c \<le> of_int c * (t * ((1 + u) * (1 + u)))" by (simp add: mult.assoc)
    have "0 \<le> p c" unfolding pc using x0 by (rule round_double_nonneg)
    with l h show ?thesis by simp
  qed
  have up: "of_int M * ((1 + u) * (1 + u)) < of_int M + 1"
    unfolding u_def using Mr by (rule rescale_upper)
  have low: "of_int M - 1 < of_int M * ((1 - u) * (1 - u))"
    unfolding u_def using Mr by (rule rescale_lower)
  have sum_hi: "sum_list (map p cs) \<le> of_int M * ((1 + u) * (1 + u))"
  proof -
    have "sum_list (map p cs) \<le> sum_list (map (\<lambda>c. of_int c * (t * ((1 + u) * (1 + u)))) cs)"
      using elem by (intro sum_list_mono) simp
    also have "\<dots> = of_int S * (t * ((1 + u) * (1 + u)))" unfolding S_def by (rule sum_list_scaled)
    also have "\<dots> = of_int M * ((1 + u) * (1 + u))" using St by (simp add: mult.assoc [symmetric])
    finally show ?thesis .
  qed
  have sum_lo: "of_int M * ((1 - u) * (1 - u)) \<le> sum_list (map p cs)"
  proof -
    have "of_int M * ((1 - u) * (1 - u)) = of_int S * (t * ((1 - u) * (1 - u)))"
      using St by (simp add: mult.assoc [symmetric])
    also have "\<dots> = sum_list (map (\<lambda>c. of_int c * (t * ((1 - u) * (1 - u)))) cs)"
      unfolding S_def by (rule sum_list_scaled [symmetric])
    also have "\<dots> \<le> sum_list (map p cs)" using elem by (intro sum_list_mono) simp
    finally show ?thesis .
  qed
  have cast: "astype_int (of_int \<lceil>p c\<rceil>) = \<lceil>p c\<rceil>" if c: "c \<in> set cs" for c
  proof -
    have c0: "0 \<le> (of_int c :: real)" using nonneg c by simp
    have "c \<le> S" unfolding S_def using nonneg c by (rule member_le_sum_list_int)
    then have cS: "(of_int c :: real) \<le> of_int S" by (simp only: of_int_le_iff)
    have k0: "0 \<le> t * ((1 + u) * (1 + u))" using t0 u1(2) by simp
    have "p c \<le> of_int c * (t * ((1 + u) * (1 + u)))" using elem [OF c] by simp
    also have "\<dots> \<le> of_int S * (t * ((1 + u) * (1 + u)))" using cS k0 by (rule mult_right_mono)
    also have "\<dots> = of_int M * ((1 + u) * (1 + u))" using St by (simp add: mult.assoc [symmetric])
    also have "\<dots> < of_int M + 1" by (rule up)
    finally have "p c < 2 ^ 51 + 1" using Mr(2) by linarith
    then have "\<lceil>p c\<rceil> \<le> 2 ^ 51 + 1" by (simp add: ceiling_le_iff)
    then have hi: "\<lceil>p c\<rceil> < 2 ^ 63" by simp
    have "0 \<le> \<lceil>p c\<rceil>" using elem [OF c] by (simp add: ceiling_le_iff le_ceiling_iff)
    then have lo: "- (2 ^ 63) \<le> \<lceil>p c\<rceil>" by simp
    from lo hi show ?thesis by (rule astype_int_of_int)
  qed
  define out where "out = map (\<lambda>c. \<lceil>p c\<rceil>) cs"
  have S0: "sum_list cs \<noteq> 0" using pos by simp
  have "normalize_pop self cs = Inr (map (\<lambda>c. astype_int (of_int \<lceil>p c\<rceil>)) cs)"
    using S0 by (simp add: normalize_pop_def Let_def p_def scale_def S_def M_def)
  also have "map (\<lambda>c. astype_int (of_int \<lceil>p c\<rceil>)) cs = out"
    unfolding out_def using cast by (intro map_cong) simp_all
  finally have res: "normalize_pop self cs = Inr out" .
  have ne: "map p cs \<noteq> []" using pos by auto
  have o: "out = map ceiling (map p cs)" by (simp add: out_def comp_def)
  have "of_int M - 1 < (of_int (sum_list out) :: real)"
    using low sum_lo sum_list_ceiling_ge [of "map p cs"] unfolding o by linarith
  then have "of_int (M - 1) < (of_int (sum_list out) :: real)" by simp
  then have "M - 1 < sum_list out" by (simp only: of_int_less_iff)
  then have a: "M \<le> sum_list out" by simp
  have "(of_int (sum_list out) :: real) < of_int M + 1 + real (length cs)"
    using up sum_hi sum_list_ceiling_less [OF ne] unfolding o by simp
  then have "(of_int (sum_list out) :: real) < of_int (M + 1 + int (length cs))" by simp
  then have "sum_list out < M + 1 + int (length cs)" by (simp only: of_int_less_iff)
  then have b: "sum_list out \<le> M + int (length cs)" by simp
  from res a b show ?thesis unfolding M_def by blast
qed

section \<open>The horizon loop\<close>

lemma abm_steps_length:
  "abm_steps self fl P k mm rows g = Inr (rows', g') \<Longrightarrow> length rows' = length rows + k"
  by (induction k arbitrary: mm rows g) (auto split: sum.splits)

lemma abm_steps_prefix:
  "abm_steps self fl P k mm rows g = Inr (rows', g') \<Longrightarrow> take (length rows) rows' = rows"
proof (induction k arbitrary: mm rows g)
  case 0
  then show ?case by simp
next
  case (Suc k)
  from Suc.prems obtain r g1 where
    rest: "abm_steps self fl P k (mm + 1) (rows @ [r]) g1 = Inr (rows', g')"
    by (auto split: sum.splits)
  from Suc.IH [OF rest] have "take (Suc (length rows)) rows' = rows @ [r]" by simp
  then have "take (length rows) (take (Suc (length rows)) rows') = take (length rows) (rows @ [r])"
    by simp
  then show ?case by (simp add: min_def)
qed

lemma fixed_loop_steps:
  assumes "length rows = Suc mm" "mm + k + 1 = n_timestep self"
  shows "fixed_loop self fl P (rows @ replicate k z) mm g
         = (case abm_steps self fl P k mm rows g of
              Inl e \<Rightarrow> Inl e
            | Inr (rows', g') \<Rightarrow> Inr ((rows', n_timestep self - 1), g'))"
  using assms
proof (induction k arbitrary: rows mm g)
  case 0
  then show ?case by (simp add: fixed_loop.simps [of self fl P rows mm g])
next
  case (Suc k)
  have lt: "int mm < int (n_timestep self) - 1" using Suc.prems by simp
  have row: "(rows @ replicate (Suc k) z) ! mm = last rows"
  proof -
    from Suc.prems(1) have "rows \<noteq> []" "length rows - 1 = mm" by auto
    then have "last rows = rows ! mm" by (simp add: last_conv_nth)
    then show ?thesis using Suc.prems(1) by (simp add: nth_append)
  qed
  have upd: "(rows @ replicate (Suc k) z)[mm + 1 := r] = (rows @ [r]) @ replicate k z" for r
    using Suc.prems(1) by (simp add: list_update_append)
  show ?case
  proof (cases "abm self fl mm (n_genotype self) P (last rows) g")
    case (Inl e)
    then show ?thesis
      using lt row by (subst fixed_loop.simps) simp
  next
    case (Inr res)
    obtain r g' where res: "res = (r, g')" by (cases res)
    have "fixed_loop self fl P (rows @ replicate (Suc k) z) mm g
        = fixed_loop self fl P ((rows @ [r]) @ replicate k z) (mm + 1) g'"
      using lt row upd [of r] Inr res
      by (subst fixed_loop.simps) simp
    also have "\<dots> = (case abm_steps self fl P k (mm + 1) (rows @ [r]) g' of
              Inl e \<Rightarrow> Inl e
            | Inr (rows', g') \<Rightarrow> Inr ((rows', n_timestep self - 1), g'))"
      using Suc.prems by (intro Suc.IH) simp_all
    finally show ?thesis using Inr res by simp
  qed
qed

section \<open>Passaging inside the update step\<close>




lemma returned_Inr: "returned r = Inr v \<Longrightarrow> \<exists>g. r = Inr (v, g)"
  by (cases r) (auto simp: returned_def)

section \<open>The stop-condition loop and the allele check\<close>

lemma check_stop_cond_Inr:
  "check_stop_cond self fittest counts mm = Inr stop \<Longrightarrow>
     mm < n_timestep self \<and> stop = (fittest = argmax counts)"
  by (auto simp: check_stop_cond_def Let_def split: if_splits)

lemma stop_loop_result:
  "stop_loop self fl fittest P counts mm g = Inr ((counts', mm'), g') \<Longrightarrow>
   length counts = mm + 1 \<Longrightarrow>
     mm' < n_timestep self \<and> length counts' = mm' + 1 \<and> argmax (last counts') = fittest"
proof (induction self fl fittest P counts mm g rule: stop_loop.induct)
  case (1 self fl fittest P counts mm g)
  from "1.prems"(2) have in_range: "\<not> length counts \<le> mm" by simp
  from "1.prems"(1) in_range obtain counts_t g1 where
    step: "abm self fl mm (n_genotype self) P (counts ! mm) g = Inr (counts_t, g1)"
    by (subst (asm) stop_loop.simps) (auto split: sum.splits)
  from "1.prems"(1) in_range step obtain stop where
    chk: "check_stop_cond self fittest counts_t (mm + 1) = Inr stop"
    by (subst (asm) stop_loop.simps) (auto split: sum.splits)
  from check_stop_cond_Inr [OF chk] have
    lt: "mm + 1 < n_timestep self" and stop: "stop = (fittest = argmax counts_t)"
    by simp_all
  show ?case
  proof (cases stop)
    case True
    with "1.prems"(1) in_range step chk have
      "counts' = counts @ [counts_t]" "mm' = mm + 1"
      by (subst (asm) stop_loop.simps, simp)+
    with lt stop True "1.prems"(2) show ?thesis by simp
  next
    case False
    with "1.prems"(1) in_range step chk have
      rec: "stop_loop self fl fittest P (counts @ [counts_t]) (mm + 1) g1
              = Inr ((counts', mm'), g')"
      by (subst (asm) stop_loop.simps) simp
    have len: "length (counts @ [counts_t]) = mm + 1 + 1"
      using "1.prems"(2) by simp
    from in_range have ir: "\<not> length counts \<le> mm" .
    show ?thesis
      using "1.IH" [OF ir step refl chk False rec len] .
  qed
qed

lemma initialize_population_power_of_two:
  assumes "given_n_allele self = Some A" "given_n_genotype self = Some (2 ^ A)"
  shows "initialize_population self lib_genotypes \<noteq> Inl (Warning ''Genotype/allele number mismatch'')"
  using assms by (simp add: initialize_population_def ilog2_pow Let_def)

section \<open>The claims of the specification\<close>

subsection \<open>The mutation matrix\<close>

text \<open>
  Claim C2: for every genotype count \<open>N = 2 ^ A\<close> with \<open>A \<ge> 1\<close>, \<open>random_mutations(N)\<close>
  returns a matrix whose rows each sum to 1, and each non-zero off-diagonal entry
  \<open>(i, j)\<close> joins two genotypes whose binary strings are at Hamming distance exactly 1:
  \<open>j\<close> is \<open>i\<close> with one of its \<open>A\<close> bits flipped. The arithmetic is exact.
\<close>

theorem random_mutations_rows_and_support:
  assumes "1 \<le> A"
  shows "\<exists>P. random_mutations (2 ^ A) (2 ^ A) = Inr P \<and> length P = 2 ^ A
           \<and> (\<forall>i < 2 ^ A. length (P ! i) = 2 ^ A \<and> sum_list (P ! i) = 1)
           \<and> (\<forall>i < 2 ^ A. \<forall>j < 2 ^ A. i \<noteq> j \<and> P ! i ! j \<noteq> 0 \<longrightarrow>
                 trans_entry (2 ^ A) i j = Inr 1 \<and> j \<in> set (gen_neighbors A i))"
proof -
  from assms have A: "0 < A" by simp
  let ?P = "hamming_matrix A"
  have run: "random_mutations (2 ^ A) (2 ^ A) = Inr ?P"
    using A by (rule random_mutations_pow)
  have len: "length ?P = 2 ^ A"
    by (simp add: hamming_matrix_def)
  have rows: "length (?P ! i) = 2 ^ A \<and> sum_list (?P ! i) = 1" if "i < 2 ^ A" for i
    using that A by (simp add: hamming_matrix_row_sum) (simp add: hamming_matrix_def)
  have supp: "trans_entry (2 ^ A) i j = Inr 1 \<and> j \<in> set (gen_neighbors A i)"
    if "i < 2 ^ A" "j < 2 ^ A" "?P ! i ! j \<noteq> 0" for i j
  proof -
    from that have "threshold (H A i j) \<noteq> 0" by (simp add: hamming_matrix_nth)
    then have one: "H A i j = 1" by (simp add: threshold_eq split: if_splits)
    then show ?thesis
      using that A by (simp add: trans_entry_pow H_one_iff_neighbor [symmetric])
  qed
  from run len rows supp show ?thesis by blast
qed

text \<open>The four genotypes of two alleles: row 0 sums to 1, and entry \<open>(0, 1)\<close> is not zero.\<close>

theorem random_mutations_rows_and_support_witness:
  "(1::nat) \<le> 2
   \<and> (\<exists>P. random_mutations (2 ^ 2) (2 ^ 2) = Inr P \<and> sum_list (P ! 0) = 1 \<and> P ! 0 ! 1 \<noteq> 0
          \<and> trans_entry (2 ^ 2) 0 1 = Inr 1 \<and> 1 \<in> set (gen_neighbors 2 0))"
proof -
  have h: "(1::nat) \<le> 2" by simp
  from random_mutations_rows_and_support [OF h] obtain P where
    run: "random_mutations (2 ^ 2) (2 ^ 2) = Inr P"
    and rows: "\<forall>i < 2 ^ 2. length (P ! i) = 2 ^ 2 \<and> sum_list (P ! i) = 1"
    and supp: "\<forall>i < 2 ^ 2. \<forall>j < 2 ^ 2. i \<noteq> j \<and> P ! i ! j \<noteq> 0 \<longrightarrow>
                 trans_entry (2 ^ 2) i j = Inr 1 \<and> j \<in> set (gen_neighbors 2 i)"
    by blast
  have "random_mutations (2 ^ 2) (2 ^ 2)
      = Inr [[0, 1 / 2, 1 / 2, 0], [1 / 2, 0, 0, 1 / 2], [1 / 2, 0, 0, 1 / 2], [0, 1 / 2, 1 / 2, 0]]"
    by code_simp
  with run have P: "P = [[0, 1 / 2, 1 / 2, 0], [1 / 2, 0, 0, 1 / 2], [1 / 2, 0, 0, 1 / 2], [0, 1 / 2, 1 / 2, 0]]"
    by simp
  then have nz: "P ! 0 ! 1 \<noteq> 0" by simp
  from rows have "sum_list (P ! 0) = 1" by simp
  moreover from supp nz have "trans_entry (2 ^ 2) 0 1 = Inr 1 \<and> 1 \<in> set (gen_neighbors 2 0)"
    by simp
  ultimately show ?thesis using run nz h by blast
qed

text \<open>
  Claim C9: for every genotype count \<open>N = 2 ^ A\<close> with \<open>A \<ge> 1\<close>, the matrix \<open>P\<close> that
  \<open>random_mutations(N)\<close> returns is symmetric, so the column \<open>P[:,g]\<close> from which \<open>abm\<close>
  samples the targets of the mutants of genotype \<open>g\<close> is the row \<open>P[g,:]\<close>.
\<close>

theorem random_mutations_symmetric:
  assumes "1 \<le> A"
  shows "\<exists>P. random_mutations (2 ^ A) (2 ^ A) = Inr P
           \<and> (\<forall>i < 2 ^ A. \<forall>j < 2 ^ A. P ! i ! j = P ! j ! i)
           \<and> (\<forall>g < 2 ^ A. map (\<lambda>row. row ! g) P = P ! g)"
proof -
  from assms have A: "0 < A" by simp
  let ?P = "hamming_matrix A"
  have run: "random_mutations (2 ^ A) (2 ^ A) = Inr ?P"
    using A by (rule random_mutations_pow)
  have sym: "?P ! i ! j = ?P ! j ! i" if "i < 2 ^ A" "j < 2 ^ A" for i j
    using that by (simp add: hamming_matrix_nth H_sym [of A i j])
  have col: "map (\<lambda>row. row ! g) ?P = ?P ! g" if "g < 2 ^ A" for g
  proof (rule nth_equalityI)
    show "length (map (\<lambda>row. row ! g) ?P) = length (?P ! g)"
      using that by (simp add: hamming_matrix_def)
  next
    fix i assume "i < length (map (\<lambda>row. row ! g) ?P)"
    then have i: "i < 2 ^ A" by (simp add: hamming_matrix_def)
    then have "map (\<lambda>row. row ! g) ?P ! i = ?P ! i ! g"
      by (simp add: hamming_matrix_def)
    with sym [OF i that] show "map (\<lambda>row. row ! g) ?P ! i = ?P ! g ! i" by simp
  qed
  from run sym col show ?thesis by blast
qed

text \<open>The two genotypes of one allele.\<close>

theorem random_mutations_symmetric_witness:
  "(1::nat) \<le> 1
   \<and> (\<exists>P. random_mutations (2 ^ 1) (2 ^ 1) = Inr P \<and> P ! 0 ! 1 = P ! 1 ! 0
          \<and> map (\<lambda>row. row ! 0) P = P ! 0)"
proof -
  have h: "(1::nat) \<le> 1" by simp
  from random_mutations_symmetric [OF h] obtain P where
    run: "random_mutations (2 ^ 1) (2 ^ 1) = Inr P"
    and sym: "\<forall>i < 2 ^ 1. \<forall>j < 2 ^ 1. P ! i ! j = P ! j ! i"
    and col: "\<forall>g < 2 ^ 1. map (\<lambda>row. row ! g) P = P ! g"
    by blast
  from sym have "P ! 0 ! 1 = P ! 1 ! 0" by simp
  moreover from col have "map (\<lambda>row. row ! 0) P = P ! 0" by simp
  ultimately show ?thesis using run by blast
qed

subsection \<open>The update step\<close>

text \<open>
  Claim C1: for every non-negative count vector and every random seed, under either death
  model, every entry that \<open>abm\<close> returns is non-negative.

  The update step clamps \<open>counts_t\<close> before the mutation loop, not after it, and the
  number of mutants of a genotype is a Poisson variate that may exceed the genotype's
  daughters. With one cell of genotype 0, no death, one daughter and three mutants, the
  step returns \<open>-1\<close> cells of genotype 0, under the default and under the pharmacodynamic
  death model. The matrix is the one that \<open>random_mutations\<close> builds for two genotypes.
\<close>

theorem abm_returns_negative_count:
  "returned (abm (two_genotypes\<lparr>mut_rate := 1 / 2\<rparr>) (unit_fitness 2) 0 2
             [[0, 1], [1, 0]] [1, 0] (scripted [0, 0, 1, 0, 3])) = Inr [- 1, 3]
   \<and> returned (abm (two_genotypes\<lparr>mut_rate := 1 / 2, death_model := Some ''pharmacodynamic''\<rparr>)
             (unit_fitness 2) 0 2 [[0, 1], [1, 0]] [1, 0] (scripted [1, 0, 0, 0, 3]))
       = Inr [- 1, 3]
   \<and> random_mutations 2 2 = Inr [[0, 1], [1, 0]]"
  by code_simp

text \<open>
  Claim C3: in constant-population mode, at every timestep after the first and for every
  random seed, the sum of the vector that \<open>abm\<close> returns is within 1 of \<open>max_cells\<close>.

  Counterexample: four genotypes held at \<open>max_cells = 10\<close>, no birth and no death. From
  \<open>[3, 3, 3, 0]\<close> the step at timestep 0 returns \<open>[4, 4, 4, 0]\<close>, and from there the step at
  timestep 1 returns \<open>[4, 4, 4, 0]\<close> again: each of three entries \<open>10 / 3\<close> is rounded up, and
  the sum is 12.
\<close>

theorem constant_pop_sum_counterexample:
  "constant_pop four_genotypes \<and> max_cells four_genotypes = 10
   \<and> returned (abm four_genotypes (unit_fitness 4) 0 4
        [[0, 1 / 2, 1 / 2, 0], [1 / 2, 0, 0, 1 / 2], [1 / 2, 0, 0, 1 / 2], [0, 1 / 2, 1 / 2, 0]]
        [3, 3, 3, 0] (scripted [])) = Inr [4, 4, 4, 0]
   \<and> returned (abm four_genotypes (unit_fitness 4) 1 4
        [[0, 1 / 2, 1 / 2, 0], [1 / 2, 0, 0, 1 / 2], [1 / 2, 0, 0, 1 / 2], [0, 1 / 2, 1 / 2, 0]]
        [4, 4, 4, 0] (scripted [])) = Inr [4, 4, 4, 0]
   \<and> \<not> \<bar>sum_list [4, 4, 4, 0] - max_cells four_genotypes\<bar> \<le> 1
   \<and> random_mutations 4 4
       = Inr [[0, 1 / 2, 1 / 2, 0], [1 / 2, 0, 0, 1 / 2], [1 / 2, 0, 0, 1 / 2], [0, 1 / 2, 1 / 2, 0]]"
  by code_simp

text \<open>
  Claim C3, amended: in constant-population mode, when the counts before the rescaling
  are not negative and their total is positive and below \<open>2 ** 53\<close>, and \<open>max_cells\<close> is not
  negative and below \<open>2 ** 51\<close>, the step returns a vector whose sum is at least \<open>max_cells\<close>
  and at most \<open>max_cells + n_genotype\<close>, at every timestep and for every random seed. The
  counts before the rescaling are what the step returns with \<open>constant_pop\<close> switched off.
  Every entry is rounded up on its own, and a double-precision product may land just
  above the whole number that the exact product is.
\<close>

theorem constant_pop_sum_bounds:
  assumes "constant_pop self" "0 \<le> max_cells self" "max_cells self < 2 ^ 51"
    and "returned (abm (self\<lparr>constant_pop := False\<rparr>) fl mm n P counts g) = Inr counts_t"
    and "\<forall>c \<in> set counts_t. 0 \<le> c" "0 < sum_list counts_t" "sum_list counts_t < 2 ^ 53"
  shows "\<exists>counts'. returned (abm self fl mm n P counts g) = Inr counts'
           \<and> max_cells self \<le> sum_list counts'
           \<and> sum_list counts' \<le> max_cells self + int n"
proof -
  from returned_Inr [OF assms(4)] obtain g' where
    run: "abm (self\<lparr>constant_pop := False\<rparr>) fl mm n P counts g = Inr (counts_t, g')" by blast
  have len: "length counts_t = n"
    using abm_length [OF _ run] by simp
  from normalize_pop_bounds [OF assms(5) assms(6) assms(7) assms(2) assms(3)] obtain out where
    out: "normalize_pop self counts_t = Inr out" "max_cells self \<le> sum_list out"
      "sum_list out \<le> max_cells self + int (length counts_t)" by blast
  have "abm self fl mm n P counts g = Inr (out, g')"
    using abm_rescales [OF assms(1), of fl mm n P counts g] run out(1) by simp
  then have "returned (abm self fl mm n P counts g) = Inr out" by (simp add: returned_def)
  with out(2) out(3) len show ?thesis by blast
qed

text \<open>
  Two genotypes of 25 cells, held at \<open>max_cells = 14\<close>, without birth or death: the double
  nearest to \<open>14 / 50\<close> times 25 is just above 7, the step returns \<open>[8, 8]\<close>, and the sum 16
  is the upper bound.
\<close>

theorem constant_pop_sum_bounds_witness:
  "constant_pop (two_genotypes\<lparr>constant_pop := True, max_cells := 14\<rparr>)
   \<and> max_cells (two_genotypes\<lparr>constant_pop := True, max_cells := 14\<rparr>) = 14
   \<and> returned (abm (two_genotypes\<lparr>constant_pop := True, max_cells := 14, constant_pop := False\<rparr>)
        (unit_fitness 2) 1 2 [[0, 1], [1, 0]] [25, 25] (scripted [])) = Inr [25, 25]
   \<and> returned (abm (two_genotypes\<lparr>constant_pop := True, max_cells := 14\<rparr>)
        (unit_fitness 2) 1 2 [[0, 1], [1, 0]] [25, 25] (scripted [])) = Inr [8, 8]
   \<and> (14 :: int) \<le> sum_list [8, 8] \<and> sum_list [8, 8] \<le> (14 :: int) + int 2"
proof -
  let ?p = "two_genotypes\<lparr>constant_pop := True, max_cells := 14\<rparr>"
  have a: "constant_pop ?p" and m: "max_cells ?p = 14"
    by (simp_all add: two_genotypes_def default_params_def pop_params.defs population.defs)
  have b: "returned (abm (?p\<lparr>constant_pop := False\<rparr>) (unit_fitness 2) 1 2 [[0, 1], [1, 0]] [25, 25]
             (scripted [])) = Inr [25, 25]"
    by code_simp
  have c: "returned (abm ?p (unit_fitness 2) 1 2 [[0, 1], [1, 0]] [25, 25] (scripted []))
             = Inr [8, 8]"
    by code_simp
  have m0: "0 \<le> max_cells ?p" and m1: "max_cells ?p < 2 ^ 51" by (simp_all add: m)
  have h: "\<forall>c \<in> set [25, 25 :: int]. 0 \<le> c" "0 < sum_list [25, 25 :: int]"
    "sum_list [25, 25 :: int] < 2 ^ 53" by simp_all
  from constant_pop_sum_bounds [OF a m0 m1 b h] obtain counts' where
    r: "returned (abm ?p (unit_fitness 2) 1 2 [[0, 1], [1, 0]] [25, 25] (scripted [])) = Inr counts'"
    and s: "max_cells ?p \<le> sum_list counts'" "sum_list counts' \<le> max_cells ?p + int 2"
    by blast
  from r c have e: "counts' = [8, 8]" by simp
  have s1: "(14 :: int) \<le> sum_list [8, 8]" using s(1) unfolding e m .
  have s2: "sum_list [8, 8] \<le> (14 :: int) + int 2" using s(2) unfolding e m .
  show ?thesis
    by (rule conjI [OF a conjI [OF m conjI [OF b conjI [OF c conjI [OF s1 s2]]]]])
qed




subsection \<open>The simulation driver\<close>

text \<open>
  Claim C5: under the fixation stop condition, when the horizon is exceeded without
  fixation, the failure is reported as a warning and \<open>run_abm\<close> still returns the
  trajectory up to the horizon.

  Counterexample: a horizon of three timesteps and a fittest genotype that never becomes
  the most frequent one. \<open>check_stop_cond\<close> raises \<open>Warning\<close> as an exception once
  \<open>mm \<ge> n_timestep\<close>, \<open>run_abm\<close> does not catch it, and the run ends with the exception and
  no trajectory.
\<close>

theorem run_abm_raises_at_horizon:
  "returned (run_abm (four_genotypes\<lparr>stop_condition := True\<rparr>) (unit_fitness 4) 3 (scripted []))
     = Inl (Warning ''Stop condition not reached. Increase n_timestep or adjust model parameters.'')"
  by code_simp

text \<open>
  Claim C5, amended: under the fixation stop condition \<open>run_abm\<close> returns a trajectory only
  when fixation is reached at a terminal timestep below \<open>n_timestep\<close>: the last row's most
  frequent genotype is the fittest one. Once the timestep counter reaches \<open>n_timestep\<close>,
  \<open>check_stop_cond\<close> raises the \<open>Warning\<close> exception, and no trajectory is returned.
\<close>

theorem stop_condition_horizon:
  assumes "stop_condition self"
  shows "(\<forall>counts mm g'. run_abm self fl fittest g = Inr ((counts, mm), g') \<longrightarrow>
            mm < n_timestep self \<and> length counts = mm + 1 \<and> argmax (last counts) = fittest)
       \<and> (\<forall>counts mm. n_timestep self \<le> mm \<and> counts \<noteq> [] \<longrightarrow>
            check_stop_cond self fittest counts mm
            = Inl (Warning
                ''Stop condition not reached. Increase n_timestep or adjust model parameters.''))"
proof -
  have "mm < n_timestep self \<and> length counts = mm + 1 \<and> argmax (last counts) = fittest"
    if run: "run_abm self fl fittest g = Inr ((counts, mm), g')" for counts mm g'
  proof -
    from run assms obtain P row where
      "stop_loop self fl fittest P [row] 0 g = Inr ((counts, mm), g')"
      by (auto simp: run_abm_def split: sum.splits)
    from stop_loop_result [OF this] show ?thesis by simp
  qed
  moreover have "check_stop_cond self fittest counts mm
            = Inl (Warning
                ''Stop condition not reached. Increase n_timestep or adjust model parameters.'')"
    if "n_timestep self \<le> mm" "counts \<noteq> []" for counts mm
    using that by (simp add: check_stop_cond_def Let_def)
  ultimately show ?thesis by blast
qed

text \<open>
  With genotype 0 the fittest, the run of four genotypes stops after one step, at
  timestep 1 of 3; at timestep 3 the check raises.
\<close>

theorem stop_condition_horizon_witness:
  "stop_condition (four_genotypes\<lparr>stop_condition := True\<rparr>)
   \<and> returned (run_abm (four_genotypes\<lparr>stop_condition := True\<rparr>) (unit_fitness 4) 0 (scripted []))
       = Inr ([[3, 3, 3, 0], [4, 4, 4, 0]], 1)
   \<and> (1 :: nat) < n_timestep (four_genotypes\<lparr>stop_condition := True\<rparr>)
   \<and> argmax (last [[3, 3, 3, 0], [4, 4, 4, 0]]) = 0
   \<and> check_stop_cond (four_genotypes\<lparr>stop_condition := True\<rparr>) 0 [4, 4, 4, 0] 3
       = Inl (Warning
           ''Stop condition not reached. Increase n_timestep or adjust model parameters.'')"
proof -
  let ?p = "four_genotypes\<lparr>stop_condition := True\<rparr>"
  let ?rows = "[[3, 3, 3, 0], [4, 4, 4, 0]] :: int list list"
  have a: "stop_condition ?p"
    by code_simp
  have r: "returned (run_abm ?p (unit_fitness 4) 0 (scripted [])) = Inr (?rows, 1)"
    by code_simp
  have n: "n_timestep ?p \<le> 3 \<and> [4, 4, 4, 0 :: int] \<noteq> []"
    by code_simp
  from returned_Inr [OF r] obtain g' where
    run: "run_abm ?p (unit_fitness 4) 0 (scripted []) = Inr ((?rows, 1), g')" ..
  note h = stop_condition_horizon [OF a, of "unit_fitness 4" 0 "scripted []"]
  from h run have fixated: "1 < n_timestep ?p \<and> length ?rows = 1 + 1 \<and> argmax (last ?rows) = 0"
    by blast
  from h n have w: "check_stop_cond ?p 0 [4, 4, 4, 0] 3
       = Inl (Warning
           ''Stop condition not reached. Increase n_timestep or adjust model parameters.'')"
    by blast
  from fixated have f1: "(1 :: nat) < n_timestep ?p" and f2: "argmax (last ?rows) = 0"
    by simp_all
  show ?thesis
    by (rule conjI [OF a conjI [OF r conjI [OF f1 conjI [OF f2 w]]]])
qed

text \<open>
  Claim C7: with the stop condition disabled, \<open>run_abm\<close> performs exactly
  \<open>n_timestep - 1\<close> update steps. Its result is that of \<open>abm_steps\<close> run for
  \<open>n_timestep - 1\<close> steps from row 0, the first exception of a step included; when it
  returns, the terminal timestep is \<open>n_timestep - 1\<close>, the trajectory has \<open>n_timestep\<close> rows
  and row 0 is the initial count vector.
\<close>

theorem run_abm_fixed_horizon:
  assumes "\<not> stop_condition self" "0 < n_timestep self"
    and "random_mutations (n_genotype self) (n_genotype self) = Inr P"
    and "first_row self = Inr row"
  shows "run_abm self fl fittest g
         = (case abm_steps self fl P (n_timestep self - 1) 0 [row] g of
              Inl e \<Rightarrow> Inl e
            | Inr (counts, g') \<Rightarrow> Inr ((counts, n_timestep self - 1), g'))
       \<and> (\<forall>counts mm g'. run_abm self fl fittest g = Inr ((counts, mm), g') \<longrightarrow>
             mm = n_timestep self - 1 \<and> length counts = n_timestep self \<and> counts ! 0 = row)"
proof -
  let ?k = "n_timestep self - 1"
  have init: "(replicate (n_timestep self) (replicate (n_genotype self) 0))[0 := row]
      = [row] @ replicate ?k (replicate (n_genotype self) 0)"
    using assms(2) by (cases "n_timestep self") simp_all
  have "run_abm self fl fittest g
      = fixed_loop self fl P
          ((replicate (n_timestep self) (replicate (n_genotype self) 0))[0 := row]) 0 g"
    using assms by (simp add: run_abm_def)
  also have "\<dots> = fixed_loop self fl P ([row] @ replicate ?k (replicate (n_genotype self) 0)) 0 g"
    by (simp only: init)
  also have "\<dots> = (case abm_steps self fl P ?k 0 [row] g of
              Inl e \<Rightarrow> Inl e
            | Inr (counts, g') \<Rightarrow> Inr ((counts, ?k), g'))"
    using assms(2) by (intro fixed_loop_steps) simp_all
  finally have eq: "run_abm self fl fittest g
         = (case abm_steps self fl P ?k 0 [row] g of
              Inl e \<Rightarrow> Inl e
            | Inr (counts, g') \<Rightarrow> Inr ((counts, ?k), g'))" .
  have "mm = ?k \<and> length counts = n_timestep self \<and> counts ! 0 = row"
    if "run_abm self fl fittest g = Inr ((counts, mm), g')" for counts mm g'
  proof -
    from that eq have st: "abm_steps self fl P ?k 0 [row] g = Inr (counts, g')" and mm: "mm = ?k"
      by (auto split: sum.splits)
    from abm_steps_length [OF st] assms(2) have len: "length counts = n_timestep self" by simp
    from abm_steps_prefix [OF st] have "take 1 counts = [row]" by simp
    then have "counts ! 0 = row" by (cases counts) simp_all
    with mm len show ?thesis by simp
  qed
  with eq show ?thesis by blast
qed

text \<open>Three timesteps of four genotypes: two update steps, terminal timestep 2.\<close>

theorem run_abm_fixed_horizon_witness:
  "\<not> stop_condition four_genotypes \<and> 0 < n_timestep four_genotypes
   \<and> random_mutations (n_genotype four_genotypes) (n_genotype four_genotypes)
       = Inr [[0, 1 / 2, 1 / 2, 0], [1 / 2, 0, 0, 1 / 2], [1 / 2, 0, 0, 1 / 2], [0, 1 / 2, 1 / 2, 0]]
   \<and> first_row four_genotypes = Inr [3, 3, 3, 0]
   \<and> returned (run_abm four_genotypes (unit_fitness 4) 0 (scripted []))
       = Inr ([[3, 3, 3, 0], [4, 4, 4, 0], [4, 4, 4, 0]], n_timestep four_genotypes - 1)"
proof -
  let ?P = "[[0, 1 / 2, 1 / 2, 0], [1 / 2, 0, 0, 1 / 2], [1 / 2, 0, 0, 1 / 2], [0, 1 / 2, 1 / 2, 0]]
              :: real list list"
  let ?rows = "[[3, 3, 3, 0], [4, 4, 4, 0], [4, 4, 4, 0]] :: int list list"
  have a: "\<not> stop_condition four_genotypes"
    by code_simp
  have b: "0 < n_timestep four_genotypes"
    by code_simp
  have c: "random_mutations (n_genotype four_genotypes) (n_genotype four_genotypes) = Inr ?P"
    by code_simp
  have d: "first_row four_genotypes = Inr [3, 3, 3, 0]"
    by code_simp
  have e: "returned (abm_steps four_genotypes (unit_fitness 4) ?P (n_timestep four_genotypes - 1) 0
               [[3, 3, 3, 0]] (scripted [])) = Inr ?rows"
    by code_simp
  from returned_Inr [OF e] obtain g' where
    steps: "abm_steps four_genotypes (unit_fitness 4) ?P (n_timestep four_genotypes - 1) 0
               [[3, 3, 3, 0]] (scripted []) = Inr (?rows, g')" ..
  have eq: "run_abm four_genotypes (unit_fitness 4) 0 (scripted [])
       = (case abm_steps four_genotypes (unit_fitness 4) ?P (n_timestep four_genotypes - 1) 0
                 [[3, 3, 3, 0]] (scripted []) of
            Inl e \<Rightarrow> Inl e
          | Inr (counts, g') \<Rightarrow> Inr ((counts, n_timestep four_genotypes - 1), g'))"
    using run_abm_fixed_horizon [OF a b c d, of "unit_fitness 4" 0 "scripted []"]
    by (rule conjunct1)
  have r: "returned (run_abm four_genotypes (unit_fitness 4) 0 (scripted []))
       = Inr (?rows, n_timestep four_genotypes - 1)"
    unfolding eq steps by (simp only: returned_def sum.case prod.case)
  show ?thesis
    by (rule conjI [OF a conjI [OF b conjI [OF c conjI [OF d r]]]])
qed

subsection \<open>Initialisation\<close>

text \<open>
  Claim C6: \<open>initialize_population\<close> raises a configuration error if
  \<open>n_genotype \<noteq> 2 ^ n_allele\<close>, and does not raise if the two are equal.

  The check compares \<open>n_allele\<close> with the integer part of \<open>log2(n_genotype)\<close>, so it accepts
  two alleles with five genotypes. The mutation matrix of five genotypes then fails the
  assertion of \<open>hammingDistance\<close>.
\<close>

theorem initialize_population_accepts_mismatch:
  "initialize_population (default_params\<lparr>given_n_allele := Some 2, given_n_genotype := Some 5\<rparr>) 16
     = Inr (pop_params.extend (default_params\<lparr>given_n_allele := Some 2, given_n_genotype := Some 5\<rparr>)
              (population.fields 2 5 [10 ^ 6, 0, 0, 0, 0]))
   \<and> (5 :: nat) \<noteq> 2 ^ 2
   \<and> random_mutations 5 5 = Inl AssertionError"
  by code_simp



subsection \<open>The ramp experiment\<close>

text \<open>
  Claim C8: the curve of \<open>set_ramp_ud\<close> holds the first dose, ramps linearly up to the
  second dose, holds it, ramps linearly down to the third dose across the second
  transition window, and holds the third dose.

  The branch for the second window adds the upward slope and asks that the result stay
  below the third dose. With doses 0, 8 and 4, a ramp of 4 and transitions at 4 and 12, the
  curve holds 8 up to timestep 9 and is 4 from timestep 10 on: there is no ramp down
  across the window from 10 to 14.
\<close>

theorem set_ramp_ud_drops_at_once:
  "set_ramp_ud ramp_example (two_genotypes\<lparr>n_timestep := 16\<rparr>)
     = Inr [0, 0, 2, 4, 6, 8, 8, 8, 8, 8, 4, 4, 4, 4, 4, 4]"
  by code_simp

end
